theory Spec2Isabelle
  imports Main
begin

section \<open>Bytes and strings\<close>

text \<open>
  A Go string is a sequence of bytes; it is modelled as a \<^typ>\<open>string\<close>, a list of
  8-bit characters. \<open>len\<close> is \<^const>\<open>length\<close> and counts bytes, as in Go.
\<close>

definition byte :: "char \<Rightarrow> nat" where
  "byte c = of_char c"

abbreviation TAB :: char where "TAB \<equiv> CHR 0x09"
abbreviation LF :: char where "LF \<equiv> CHR 0x0A"
abbreviation VT :: char where "VT \<equiv> CHR 0x0B"
abbreviation FF :: char where "FF \<equiv> CHR 0x0C"
abbreviation CR :: char where "CR \<equiv> CHR 0x0D"
abbreviation SP :: char where "SP \<equiv> CHR 0x20"

definition CRLF :: string where
  "CRLF = [CR, LF]"

text \<open>\<open>strings.HasPrefix\<close>, with the prefix as first argument.\<close>

fun has_prefix :: "string \<Rightarrow> string \<Rightarrow> bool" where
  "has_prefix [] s = True"
| "has_prefix (p # ps) [] = False"
| "has_prefix (p # ps) (c # cs) = (p = c \<and> has_prefix ps cs)"

text \<open>
  The length of the first byte sequence of \<open>qs\<close> that the string starts with, and 0 when
  it starts with none of them.
\<close>

fun match_len :: "string list \<Rightarrow> string \<Rightarrow> nat" where
  "match_len [] s = 0"
| "match_len (q # qs) s = (if has_prefix q s then length q else match_len qs s)"

text \<open>
  Go decodes a string as UTF-8 wherever it looks at characters (runes) rather than bytes.
  A white space character is then one of a few fixed byte sequences. None of them starts
  with a continuation byte (0x80 to 0xBF) and all their later bytes are continuation
  bytes, so a sequence found at a byte offset is found at a rune boundary, and invalid
  bytes (decoded as U+FFFD, one byte wide) never match.

  \<open>re_space\<close> is the class \<open>[\s\p{Zs}]\<close> of \<open>whitespaceRe\<close> in header.go: Go's \<open>\s\<close> is
  \<open>[\t\n\f\r ]\<close>, and \<open>Zs\<close> is U+0020, U+00A0, U+1680, U+2000 to U+200A, U+202F, U+205F
  and U+3000.
\<close>

definition re_space :: "string list" where
  "re_space =
     [[TAB], [LF], [FF], [CR], [SP],
      [CHR 0xC2, CHR 0xA0],
      [CHR 0xE1, CHR 0x9A, CHR 0x80],
      [CHR 0xE2, CHR 0x80, CHR 0x80], [CHR 0xE2, CHR 0x80, CHR 0x81],
      [CHR 0xE2, CHR 0x80, CHR 0x82], [CHR 0xE2, CHR 0x80, CHR 0x83],
      [CHR 0xE2, CHR 0x80, CHR 0x84], [CHR 0xE2, CHR 0x80, CHR 0x85],
      [CHR 0xE2, CHR 0x80, CHR 0x86], [CHR 0xE2, CHR 0x80, CHR 0x87],
      [CHR 0xE2, CHR 0x80, CHR 0x88], [CHR 0xE2, CHR 0x80, CHR 0x89],
      [CHR 0xE2, CHR 0x80, CHR 0x8A],
      [CHR 0xE2, CHR 0x80, CHR 0xAF],
      [CHR 0xE2, CHR 0x81, CHR 0x9F],
      [CHR 0xE3, CHR 0x80, CHR 0x80]]"

text \<open>
  \<open>unicode_space\<close> is \<open>unicode.IsSpace\<close>, which \<open>strings.TrimSpace\<close> uses: the class
  above and also vertical tab, U+0085, U+2028 and U+2029.
\<close>

definition unicode_space :: "string list" where
  "unicode_space =
     re_space @
     [[VT], [CHR 0xC2, CHR 0x85],
      [CHR 0xE2, CHR 0x80, CHR 0xA8], [CHR 0xE2, CHR 0x80, CHR 0xA9]]"

text \<open>Dropping every leading byte sequence of \<open>qs\<close>.\<close>

function trim_left :: "string list \<Rightarrow> string \<Rightarrow> string" where
  "trim_left qs s =
     (let n = match_len qs s in
      if n = 0 \<or> s = [] then s else trim_left qs (drop n s))"
  by pat_completeness auto
termination
  by (relation "measure (\<lambda>(qs, s). length s)") auto

definition trim_right :: "string list \<Rightarrow> string \<Rightarrow> string" where
  "trim_right qs s = rev (trim_left (map rev qs) (rev s))"

text \<open>\<open>strings.TrimSpace\<close>: all leading and all trailing white space removed.\<close>

definition TrimSpace :: "string \<Rightarrow> string" where
  "TrimSpace s = trim_right unicode_space (trim_left unicode_space s)"

text \<open>
  \<open>whitespaceRe.ReplaceAllLiteralString(s, " ")\<close> for \<open>[\s\p{Zs}]+\<close>: every maximal run of
  characters of the class becomes one space, every other byte is copied.
\<close>

function ReplaceAllSpace :: "string \<Rightarrow> string" where
  "ReplaceAllSpace [] = []"
| "ReplaceAllSpace (c # cs) =
     (let n = match_len re_space (c # cs) in
      if n = 0 then c # ReplaceAllSpace cs
      else SP # ReplaceAllSpace (trim_left re_space (drop n (c # cs))))"
  by pat_completeness auto

lemma length_trim_left: "length (trim_left qs s) \<le> length s"
proof (induction qs s rule: trim_left.induct)
  case (1 qs s)
  show ?case
  proof (cases "match_len qs s = 0 \<or> s = []")
    case True
    then show ?thesis by (subst trim_left.simps) auto
  next
    case False
    with 1 have "length (trim_left qs (drop (match_len qs s) s)) \<le> length (drop (match_len qs s) s)"
      by simp
    with False show ?thesis by (subst trim_left.simps) (simp add: Let_def)
  qed
qed

termination ReplaceAllSpace
proof (relation "measure length")
  fix c cs n
  assume "n = match_len re_space (c # cs)" "n \<noteq> 0"
  then have "length (drop n (c # cs)) < length (c # cs)" by simp
  moreover have "length (trim_left re_space (drop n (c # cs))) \<le> length (drop n (c # cs))"
    by (rule length_trim_left)
  ultimately show "(trim_left re_space (drop n (c # cs)), c # cs) \<in> measure length"
    by simp
qed auto

declare trim_left.simps [simp del]
declare ReplaceAllSpace.simps(2) [simp del]


section \<open>Canonical header keys\<close>

text \<open>
  \<open>textproto.CanonicalMIMEHeaderKey\<close> belongs to Go's standard library, not to the
  repository. It is modelled from the library's documentation: the first letter and any
  letter following a hyphen are converted to upper case, the rest to lower case; a key
  that contains a space or a byte that is not valid in a header field name is returned
  without modifications. The valid bytes are the \<open>tchar\<close> of RFC 7230.
\<close>

definition isLower :: "char \<Rightarrow> bool" where
  "isLower c = (97 \<le> byte c \<and> byte c \<le> 122)"

definition isUpper :: "char \<Rightarrow> bool" where
  "isUpper c = (65 \<le> byte c \<and> byte c \<le> 90)"

definition isDigit :: "char \<Rightarrow> bool" where
  "isDigit c = (48 \<le> byte c \<and> byte c \<le> 57)"

definition toUpper :: "char \<Rightarrow> char" where
  "toUpper c = (if isLower c then char_of (byte c - 32) else c)"

definition toLower :: "char \<Rightarrow> char" where
  "toLower c = (if isUpper c then char_of (byte c + 32) else c)"

definition validHeaderFieldByte :: "char \<Rightarrow> bool" where
  "validHeaderFieldByte c =
     (isDigit c \<or> isLower c \<or> isUpper c \<or>
      c \<in> set [CHR ''!'', CHR ''#'', CHR ''$'', CHR ''%'', CHR ''&'', CHR 0x27, CHR ''*'',
        CHR ''+'', CHR ''-'', CHR ''.'', CHR ''^'', CHR ''_'', CHR 0x60, CHR ''|'', CHR ''~''])"

text \<open>The loop of the library over the bytes of a valid key; \<open>upper\<close> starts true.\<close>

fun canon_loop :: "bool \<Rightarrow> string \<Rightarrow> string" where
  "canon_loop upper [] = []"
| "canon_loop upper (c # cs) =
     (let c' = (if upper then toUpper c else toLower c)
      in c' # canon_loop (c' = CHR ''-'') cs)"

definition CanonicalMIMEHeaderKey :: "string \<Rightarrow> string" where
  "CanonicalMIMEHeaderKey s =
     (if list_all validHeaderFieldByte s then canon_loop True s else s)"

section \<open>The header model (header.go)\<close>

record KV =
  Key :: string
  Value :: string

record Header =
  Headers :: "KV list"

text \<open>\<open>Add\<close> adds a new key, value pair to the header.\<close>

definition Add :: "Header \<Rightarrow> string \<Rightarrow> string \<Rightarrow> Header" where
  "Add h key value =
     (let key = CanonicalMIMEHeaderKey key
      in h\<lparr>Headers := Headers h @ [\<lparr>Key = key, Value = value\<rparr>]\<rparr>)"

fun Get_loop :: "string \<Rightarrow> KV list \<Rightarrow> string" where
  "Get_loop key [] = []"
| "Get_loop key (h # hs) = (if key = Key h then Value h else Get_loop key hs)"

definition Get :: "Header \<Rightarrow> string \<Rightarrow> string" where
  "Get h key = Get_loop (CanonicalMIMEHeaderKey key) (Headers h)"

fun Has_loop :: "string \<Rightarrow> KV list \<Rightarrow> bool" where
  "Has_loop key [] = False"
| "Has_loop key (h # hs) = (if key = Key h then True else Has_loop key hs)"

definition Has :: "Header \<Rightarrow> string \<Rightarrow> bool" where
  "Has h key = Has_loop (CanonicalMIMEHeaderKey key) (Headers h)"

text \<open>
  \<open>Normalize\<close> replaces all whitespace in a header with a single space. The loop
  assigns \<open>h.Headers[i].Value\<close> and leaves the key of the entry as it is.
\<close>

fun Normalize_loop :: "KV list \<Rightarrow> KV list" where
  "Normalize_loop [] = []"
| "Normalize_loop (kv # kvs) =
     kv\<lparr>Value := TrimSpace (ReplaceAllSpace (Value kv))\<rparr> # Normalize_loop kvs"

definition Normalize :: "Header \<Rightarrow> Header" where
  "Normalize h = h\<lparr>Headers := Normalize_loop (Headers h)\<rparr>"

text \<open>\<open>RemoveAll\<close> removes all headers with this (canonicalized) name.\<close>

fun RemoveAll_loop :: "string \<Rightarrow> KV list \<Rightarrow> KV list \<Rightarrow> KV list" where
  "RemoveAll_loop key filtered [] = filtered"
| "RemoveAll_loop key filtered (kv # kvs) =
     (if Key kv \<noteq> key then RemoveAll_loop key (filtered @ [kv]) kvs
      else RemoveAll_loop key filtered kvs)"

definition RemoveAll :: "Header \<Rightarrow> string \<Rightarrow> Header" where
  "RemoveAll h key =
     (let key = CanonicalMIMEHeaderKey key
      in h\<lparr>Headers := RemoveAll_loop key [] (Headers h)\<rparr>)"


section \<open>The registry and the validator (generate.go)\<close>

datatype HeaderType =
    HeaderTypeUnstructured
  | HeaderTypeMailbox
  | HeaderTypeMailboxList
  | HeaderTypeDate
  | HeaderTypeReceived
  | HeaderTypeMessageID
  | HeaderTypeMessageIDList
  | HeaderTypePhraseList
  | HeaderTypeReturnPath
  | HeaderTypeOpaque

record Syntax =
  Required :: bool
  Unique :: bool
  Type :: HeaderType

definition entry :: "bool \<Rightarrow> bool \<Rightarrow> HeaderType \<Rightarrow> Syntax" where
  "entry r u t = \<lparr>Required = r, Unique = u, Type = t\<rparr>"

definition HdrReturnPath :: string where "HdrReturnPath = ''Return-Path''"
definition HdrBcc :: string where "HdrBcc = ''Bcc''"

text \<open>\<open>HeaderSyntax\<close> maps header names to their syntax.\<close>

definition HeaderSyntax :: "string \<rightharpoonup> Syntax" where
  "HeaderSyntax = map_of
     [(''Return-Path'', entry False False HeaderTypeReturnPath),
      (''Received'', entry False False HeaderTypeReceived),
      (''Date'', entry True True HeaderTypeDate),
      (''From'', entry True True HeaderTypeMailboxList),
      (''Sender'', entry False True HeaderTypeMailbox),
      (''Reply-To'', entry False True HeaderTypeMailboxList),
      (''To'', entry False True HeaderTypeMailboxList),
      (''Cc'', entry False True HeaderTypeMailboxList),
      (''Bcc'', entry False True HeaderTypeMailboxList),
      (''Message-Id'', entry False True HeaderTypeMessageID),
      (''In-Reply-To'', entry False True HeaderTypeMessageIDList),
      (''References'', entry False True HeaderTypeMessageIDList),
      (''Subject'', entry False True HeaderTypeUnstructured),
      (''Comments'', entry False False HeaderTypeUnstructured),
      (''Keywords'', entry False False HeaderTypePhraseList),
      (''Resent-Date'', entry False False HeaderTypeDate),
      (''Resent-From'', entry False False HeaderTypeMailboxList),
      (''Resent-Sender'', entry False False HeaderTypeMailbox),
      (''Resent-To'', entry False False HeaderTypeMailboxList),
      (''Resent-Cc'', entry False False HeaderTypeMailboxList),
      (''Resent-Bcc'', entry False False HeaderTypeMailboxList),
      (''Mime-Version'', entry False True HeaderTypeOpaque),
      (''Content-Type'', entry False True HeaderTypeOpaque),
      (''Content-ID'', entry False True HeaderTypeMessageID),
      (''Content-Transfer-Encoding'', entry False True HeaderTypeOpaque),
      (''Content-Description'', entry False True HeaderTypeUnstructured)]"

text \<open>Options configures how a set of headers will be rendered.\<close>

record Options =
  RenderBCC :: bool
  RenderBlank :: bool
  NoEscape :: bool
  RenderReturnPath :: bool

text \<open>
  The errors of the package, one constructor for each place that makes one; an error
  that wraps another (\<open>%w\<close>) carries it.
\<close>

datatype error =
    EOF
  | StreamError string
  | ProtocolError string
  | ParseError string
  | NotStandardHeader string
  | InvalidValue string error
  | NonAscii
  | InvalidReturnPath string error
  | ReturnPathDisplayName string
  | InvalidDate string error
  | InvalidMailbox string error
  | InvalidMailboxList string error
  | InvalidMessageID string
  | QuotedCRLF nat
  | HeaderError string error

text \<open>
  The collaborators of Go's standard library: the address and date parsers of
  \<open>net/mail\<close>, the canonical form \<open>String()\<close> of an address, and
  \<open>mime.QEncoding.Encode("utf-8", _)\<close>. They are parameters of the model.
\<close>

record Address =
  Name :: string
  Address :: string

record Ext =
  ParseAddress :: "string \<Rightarrow> error + Address"
  ParseAddressList :: "string \<Rightarrow> error + Address list"
  ParseDate :: "string \<Rightarrow> error option"
  AddressString :: "Address \<Rightarrow> string"
  QEncode :: "string \<Rightarrow> string"

text \<open>\<open>isAscii\<close> checks whether all characters in a string are low ASCII.\<close>

fun isAscii :: "string \<Rightarrow> bool" where
  "isAscii [] = True"
| "isAscii (c # cs) = (if byte c > 127 then False else isAscii cs)"

subsection \<open>Regular expressions\<close>

text \<open>
  The part of Go's \<open>regexp\<close> syntax that \<open>messageIdRe\<close> uses: character classes given by
  their ranges, concatenation, \<open>*\<close> and \<open>+\<close>. \<open>rmatch r s\<close> lists what can remain of \<open>s\<close>
  after a match of \<open>r\<close> at its start. Under \<open>Star\<close>, a turn that consumes nothing is
  not repeated, which loses no match.
\<close>

datatype rexp =
    Cls "(char \<times> char) list"
  | Seq rexp rexp
  | Star rexp

fun in_class :: "(char \<times> char) list \<Rightarrow> char \<Rightarrow> bool" where
  "in_class [] c = False"
| "in_class ((lo, hi) # rs) c = ((byte lo \<le> byte c \<and> byte c \<le> byte hi) \<or> in_class rs c)"

function rmatch :: "rexp \<Rightarrow> string \<Rightarrow> string list" where
  "rmatch (Cls rs) [] = []"
| "rmatch (Cls rs) (c # cs) = (if in_class rs c then [cs] else [])"
| "rmatch (Seq r1 r2) s = concat (map (rmatch r2) (rmatch r1 s))"
| "rmatch (Star r) s =
     s # concat (map (rmatch (Star r)) (filter (\<lambda>t. length t < length s) (rmatch r s)))"
  by pat_completeness auto
termination
  by (relation "measures [\<lambda>(r, s). size r, \<lambda>(r, s). length s]") auto

definition Plus :: "rexp \<Rightarrow> rexp" where
  "Plus r = Seq r (Star r)"

definition Lit :: "char \<Rightarrow> rexp" where
  "Lit c = Cls [(c, c)]"

fun seqs :: "rexp list \<Rightarrow> rexp" where
  "seqs [r] = r"
| "seqs (r # rs) = Seq r (seqs rs)"
| "seqs [] = Star (Cls [])"

text \<open>\<open>const atext = "[a-zA-Z0-9!#$%&'*+-/=?^_`{|}~]"\<close>: in a class, \<open>+-/\<close> is a range.\<close>

definition atext :: rexp where
  "atext = Cls
     [(CHR ''a'', CHR ''z''), (CHR ''A'', CHR ''Z''), (CHR ''0'', CHR ''9''),
      (CHR ''!'', CHR ''!''), (CHR ''#'', CHR ''#''), (CHR ''$'', CHR ''$''),
      (CHR ''%'', CHR ''%''), (CHR ''&'', CHR ''&''), (CHR 0x27, CHR 0x27),
      (CHR ''*'', CHR ''*''), (CHR ''+'', CHR ''/''), (CHR ''='', CHR ''=''),
      (CHR ''?'', CHR ''?''), (CHR ''^'', CHR ''^''), (CHR ''_'', CHR ''_''),
      (CHR 0x60, CHR 0x60), (CHR ''{'', CHR ''{''), (CHR ''|'', CHR ''|''),
      (CHR ''}'', CHR ''}''), (CHR ''~'', CHR ''~'')]"

text \<open>Go's \<open>\s\<close> is \<open>[\t\n\f\r ]\<close>.\<close>

definition re_s :: rexp where
  "re_s = Cls [(TAB, LF), (FF, CR), (SP, SP)]"

text \<open>
  \<open>^\s*<\<close> atext \<open>+(?:\.\<close> atext \<open>+)*@\<close> atext \<open>+(?:\.\<close> atext \<open>+)>\s*\<close>
\<close>

definition messageIdRe :: rexp where
  "messageIdRe = seqs
     [Star re_s, Lit CHR ''<'',
      Plus atext, Star (Seq (Lit CHR ''.'') (Plus atext)),
      Lit CHR ''@'',
      Plus atext, Seq (Lit CHR ''.'') (Plus atext),
      Lit CHR ''>'', Star re_s]"

text \<open>
  \<open>MatchString\<close> reports whether the string contains any match. The expression starts
  with \<open>^\<close> and has no \<open>$\<close>: a match starts at the start of the string and may end
  anywhere in it.
\<close>

definition MatchString :: "rexp \<Rightarrow> string \<Rightarrow> bool" where
  "MatchString r s = (rmatch r s \<noteq> [])"

definition validMessageId :: "string \<Rightarrow> error option" where
  "validMessageId s = (if MatchString messageIdRe s then None else Some (InvalidMessageID s))"

text \<open>\<open>strings.Split\<close> with a separator of one byte: the pieces between the separators, at least one.\<close>

fun Split :: "string \<Rightarrow> char \<Rightarrow> string list" where
  "Split [] sep = [[]]"
| "Split (c # cs) sep =
     (if c = sep then [] # Split cs sep
      else (case Split cs sep of p # ps \<Rightarrow> (c # p) # ps | [] \<Rightarrow> [[c]]))"

text \<open>\<open>strings.Join\<close>\<close>

fun Join :: "string list \<Rightarrow> string \<Rightarrow> string" where
  "Join [] sep = []"
| "Join [a] sep = a"
| "Join (a # b # bs) sep = a @ sep @ Join (b # bs) sep"

fun validMessageIdList_loop :: "string list \<Rightarrow> error option" where
  "validMessageIdList_loop [] = None"
| "validMessageIdList_loop (i # ids) =
     (case validMessageId i of Some err \<Rightarrow> Some err | None \<Rightarrow> validMessageIdList_loop ids)"

definition validMessageIdList :: "string \<Rightarrow> error option" where
  "validMessageIdList s = validMessageIdList_loop (Split s CHR '','')"

definition validDate :: "Ext \<Rightarrow> string \<Rightarrow> error option" where
  "validDate x s = (case ParseDate x s of None \<Rightarrow> None | Some err \<Rightarrow> Some (InvalidDate s err))"

text \<open>
  \<open>checkHeader\<close>; its \<open>default\<close> branch answers a header type outside the ten constants,
  which the datatype does not have.
\<close>

definition checkHeader :: "Ext \<Rightarrow> HeaderType \<Rightarrow> string \<Rightarrow> error option" where
  "checkHeader x headerType value =
     (let value = TrimSpace value in
      case headerType of
        HeaderTypeUnstructured \<Rightarrow> None
      | HeaderTypePhraseList \<Rightarrow> None
      | HeaderTypeOpaque \<Rightarrow> (if isAscii value then None else Some NonAscii)
      | HeaderTypeReceived \<Rightarrow> (if isAscii value then None else Some NonAscii)
      | HeaderTypeReturnPath \<Rightarrow>
          (if value = ''<>'' then None
           else case ParseAddress x value of
             Inl err \<Rightarrow> Some (InvalidReturnPath value err)
           | Inr addr \<Rightarrow>
               (if Name addr \<noteq> [] then Some (ReturnPathDisplayName value) else None))
      | HeaderTypeDate \<Rightarrow> validDate x value
      | HeaderTypeMailbox \<Rightarrow>
          (case ParseAddress x value of
             Inr _ \<Rightarrow> None
           | Inl err \<Rightarrow> Some (InvalidMailbox value err))
      | HeaderTypeMailboxList \<Rightarrow>
          (case ParseAddressList x value of
             Inr _ \<Rightarrow> None
           | Inl err \<Rightarrow> Some (InvalidMailboxList value err))
      | HeaderTypeMessageID \<Rightarrow> validMessageId value
      | HeaderTypeMessageIDList \<Rightarrow> validMessageIdList value)"

text \<open>
  \<open>Set\<close> sets a standard header, replacing any existing one. The loop over
  \<open>h.Headers\<close> stores the new entry at the first index whose key is the canonical key and
  returns; \<open>None\<close> says that it ran to the end.
\<close>

fun Set_loop :: "string \<Rightarrow> string \<Rightarrow> KV list \<Rightarrow> KV list option" where
  "Set_loop canonKey value [] = None"
| "Set_loop canonKey value (v # vs) =
     (if Key v = canonKey then Some (\<lparr>Key = canonKey, Value = value\<rparr> # vs)
      else map_option ((#) v) (Set_loop canonKey value vs))"

definition Set :: "Ext \<Rightarrow> Header \<Rightarrow> string \<Rightarrow> string \<Rightarrow> Header \<times> error option" where
  "Set x h key value =
     (let canonKey = CanonicalMIMEHeaderKey key in
      case HeaderSyntax canonKey of
        None \<Rightarrow> (h, Some (NotStandardHeader canonKey))
      | Some syntax \<Rightarrow>
          (case (if value \<noteq> [] then checkHeader x (Type syntax) value else None) of
             Some err \<Rightarrow> (h, Some (InvalidValue key err))
           | None \<Rightarrow>
               (case Set_loop canonKey value (Headers h) of
                  Some hs \<Rightarrow> (h\<lparr>Headers := hs\<rparr>, None)
                | None \<Rightarrow>
                    (h\<lparr>Headers := Headers h @ [\<lparr>Key = canonKey, Value = value\<rparr>]\<rparr>, None))))"


section \<open>The reader (reader.go)\<close>

text \<open>
  \<open>r.ReadContinuedLineBytes\<close> is the line reader of \<open>net/textproto\<close>, outside the
  repository. The reader is modelled by the results that its successive calls give, each
  a line and an error; past the last of them the stream has ended, and a call gives no
  line and the error \<open>EOF\<close>, as the library does at the end of its input.
\<close>

type_synonym Reader = "(string \<times> error option) list"

text \<open>\<open>bytes.IndexByte\<close>: the index of the first instance of \<open>c\<close>, or -1.\<close>

fun IndexByte :: "string \<Rightarrow> char \<Rightarrow> int" where
  "IndexByte [] c = -1"
| "IndexByte (b # bs) c =
     (if b = c then 0 else (let i = IndexByte bs c in if i < 0 then -1 else i + 1))"

text \<open>\<open>for endKey > 0 && kv[endKey-1] == ' ' { endKey-- }\<close>\<close>

function endKey_loop :: "string \<Rightarrow> nat \<Rightarrow> nat" where
  "endKey_loop kv endKey =
     (if endKey > 0 \<and> kv ! (endKey - 1) = SP then endKey_loop kv (endKey - 1) else endKey)"
  by pat_completeness auto
termination
  by (relation "measure (\<lambda>(kv, endKey). endKey)") auto

text \<open>\<open>for i < len(kv) && (kv[i] == ' ' || kv[i] == '\t') { i++ }\<close>\<close>

function skip_blank_loop :: "string \<Rightarrow> nat \<Rightarrow> nat" where
  "skip_blank_loop kv i =
     (if i < length kv \<and> (kv ! i = SP \<or> kv ! i = TAB) then skip_blank_loop kv (i + 1) else i)"
  by pat_completeness auto
termination
  by (relation "measure (\<lambda>(kv, i). length kv - i)") auto

declare endKey_loop.simps [simp del]
declare skip_blank_loop.simps [simp del]

text \<open>
  The loop of \<open>ReadHeader\<close>; every turn takes the next result of the reader. \<open>m.Add\<close>
  canonicalizes the key once more.
\<close>

fun ReadHeader_loop :: "Header \<Rightarrow> Reader \<Rightarrow> Header \<times> error option" where
  "ReadHeader_loop m [] = (m, Some EOF)"
| "ReadHeader_loop m ((kv, err) # r) =
     (if length kv = 0 then (m, err)
      else
        let i = IndexByte kv CHR '':'' in
        if i < 0 then (m, Some (ProtocolError (''malformed MIME header line: '' @ kv)))
        else
          let endKey = endKey_loop kv (nat i);
              key = CanonicalMIMEHeaderKey (take endKey kv)
          in
          if key = [] then ReadHeader_loop m r
          else
            let i = skip_blank_loop kv (nat (i + 1));
                value = drop i kv;
                m = Add m key value
            in if err \<noteq> None then (m, err) else ReadHeader_loop m r)"

definition ReadHeader :: "Reader \<Rightarrow> Header \<times> error option" where
  "ReadHeader r = ReadHeader_loop \<lparr>Headers = []\<rparr> r"

text \<open>
  \<open>ReadMessage\<close> (message.go) returns the error of \<open>ReadHeader\<close> if there is one, and
  no message then. The body of the message it returns otherwise is the reader itself,
  which the model leaves out.
\<close>

definition ReadMessage :: "Reader \<Rightarrow> error + Header" where
  "ReadMessage r = (case ReadHeader r of (hdr, Some err) \<Rightarrow> Inl err | (hdr, None) \<Rightarrow> Inr hdr)"

section \<open>The writer and the folding engine (generate.go)\<close>

text \<open>
  The writer \<open>w\<close> is modelled as the bytes written so far, as the \<open>bytes.Buffer\<close> of
  \<open>Bytes\<close>: a write appends and never fails.
\<close>

text \<open>The \<open>switch headerType\<close> of \<open>writeHeader\<close>, which prepares the value.\<close>

definition prepareValue :: "Ext \<Rightarrow> HeaderType \<Rightarrow> string \<Rightarrow> Options \<Rightarrow> error + string" where
  "prepareValue x headerType value opts =
     (case headerType of
        HeaderTypeUnstructured \<Rightarrow>
          Inr (if \<not> isAscii value \<and> \<not> NoEscape opts then QEncode x value else value)
      | HeaderTypePhraseList \<Rightarrow>
          Inr (if \<not> isAscii value \<and> \<not> NoEscape opts then QEncode x value else value)
      | HeaderTypeMailbox \<Rightarrow>
          (case ParseAddress x value of
             Inl err \<Rightarrow> Inl err
           | Inr addr \<Rightarrow> Inr (AddressString x addr))
      | HeaderTypeMailboxList \<Rightarrow>
          (case ParseAddressList x value of
             Inl err \<Rightarrow> Inl err
           | Inr addrs \<Rightarrow> Inr (Join (map (AddressString x) addrs) '', ''))
      | _ \<Rightarrow> Inr value)"

text \<open>\<open>val[a:b]\<close>; the engine keeps \<open>a \<le> b \<le> len(val)\<close>.\<close>

definition slice :: "string \<Rightarrow> nat \<Rightarrow> nat \<Rightarrow> string" where
  "slice val a b = take (b - a) (drop a val)"

text \<open>\<open>for ; i < len(val) && (val[i] == '\r' || val[i] == '\n'); i++ {}\<close>\<close>

function skip_crlf :: "string \<Rightarrow> nat \<Rightarrow> nat" where
  "skip_crlf val i =
     (if i < length val \<and> (val ! i = CR \<or> val ! i = LF) then skip_crlf val (i + 1) else i)"
  by pat_completeness auto
termination
  by (relation "measure (\<lambda>(val, i). length val - i)") auto

declare skip_crlf.simps [simp del]

lemma skip_crlf_ge: "i \<le> skip_crlf val i"
proof (induction val i rule: skip_crlf.induct)
  case (1 val i)
  then show ?case by (subst skip_crlf.simps) (auto simp: Suc_leD)
qed

lemma skip_crlf_less: "i < length val \<Longrightarrow> length val - Suc (skip_crlf val i) < length val - i"
  using skip_crlf_ge [of i val] by simp

text \<open>
  The scanning loop of \<open>writeHeader\<close>, from index \<open>i\<close>. Its result is the error, if any,
  and \<open>tokenStart\<close>, \<open>column\<close> and the writer when it ends. After a run of CR and LF the
  loop goes on at the index after the byte that follows the run.
\<close>

function fold_loop ::
  "string \<Rightarrow> nat \<Rightarrow> bool \<Rightarrow> nat \<Rightarrow> nat \<Rightarrow> string \<Rightarrow> error option \<times> nat \<times> nat \<times> string" where
  "fold_loop val i inString tokenStart column w =
     (if \<not> i < length val then (None, tokenStart, column, w)
      else
        let v = val ! i in
        if v = CHR 0x22 then fold_loop val (i + 1) (\<not> inString) tokenStart column w
        else if inString then
          (if v = CR \<or> v = LF then (Some (QuotedCRLF i), tokenStart, column, w)
           else fold_loop val (i + 1) inString tokenStart column w)
        else if v = CR \<or> v = LF then
          (let tok = slice val tokenStart i;
               j = skip_crlf val i
           in
           if length tok > 0 then
             (let w = w @ tok;
                  column = column + length tok
              in
              if j \<ge> length val then (None, j, column, w)
              else if val ! j = SP \<or> val ! j = TAB
              then fold_loop val (j + 1) inString j 0 (w @ CRLF)
              else fold_loop val (j + 1) inString j 1 (w @ CRLF @ [TAB]))
           else fold_loop val (j + 1) inString j column w)
        else if v = SP \<or> v = TAB \<or> v = VT \<or> v = FF then
          (let tok = slice val tokenStart i;
               wrap = (column + length tok > 78 \<and> tokenStart \<noteq> 0);
               w = (if wrap then w @ CRLF else w);
               column = (if wrap then 0 else column)
           in fold_loop val (i + 1) inString i (column + length tok) (w @ tok))
        else fold_loop val (i + 1) inString tokenStart column w)"
  by pat_completeness auto
termination
  by (relation "measure (\<lambda>(val, i, inString, tokenStart, column, w). length val - i)")
     (auto simp: skip_crlf_less)

declare fold_loop.simps [simp del]

definition writeHeader ::
  "Ext \<Rightarrow> string \<Rightarrow> HeaderType \<Rightarrow> string \<Rightarrow> string \<Rightarrow> Options \<Rightarrow> string \<times> error option" where
  "writeHeader x w headerType key value opts =
     (let value = TrimSpace value;
          column = length key + 2;
          w = w @ key;
          w = w @ '': ''
      in
      case prepareValue x headerType value opts of
        Inl err \<Rightarrow> (w, Some err)
      | Inr val \<Rightarrow>
          if length val + column < 78 then (w @ val @ CRLF, None)
          else
            (case fold_loop val 0 False 0 column w of
               (Some err, _, _, w) \<Rightarrow> (w, Some err)
             | (None, tokenStart, column, w) \<Rightarrow>
                 (let wrap = (column + length (drop tokenStart val) > 78 \<and> tokenStart \<noteq> 0 \<and> column > 1);
                      last = (tokenStart < length val);
                      w = (if last \<and> wrap then w @ CRLF else w);
                      column = (if last \<and> wrap then 0 else column);
                      w = (if last then w @ drop tokenStart val else w);
                      column = (if last then column + length (drop tokenStart val) else column)
                  in if column \<noteq> 0 then (w @ CRLF, None) else (w, None))))"

text \<open>
  The loop of \<open>WriteTo\<close> over the entries, with the set \<open>seen\<close> and the writer as state.
  \<open>writeHeader\<close> has written what it returns when it fails, and the loop stops there.
\<close>

fun WriteTo_loop ::
  "Ext \<Rightarrow> Options \<Rightarrow> string set \<Rightarrow> KV list \<Rightarrow> string \<Rightarrow> string \<times> error option" where
  "WriteTo_loop x opts seen [] w = (w, None)"
| "WriteTo_loop x opts seen (h # hs) w =
     (if \<not> RenderBlank opts \<and> Value h = [] then WriteTo_loop x opts seen hs w
      else if Key h = HdrBcc \<and> \<not> RenderBCC opts then WriteTo_loop x opts seen hs w
      else if Key h = HdrReturnPath \<and> \<not> RenderReturnPath opts then WriteTo_loop x opts seen hs w
      else
        (case HeaderSyntax (Key h) of
           Some syn \<Rightarrow>
             if Unique syn \<and> Key h \<in> seen then WriteTo_loop x opts seen hs w
             else
               (let seen = (if Unique syn then insert (Key h) seen else seen) in
                case writeHeader x w (Type syn) (Key h) (Value h) opts of
                  (w, Some err) \<Rightarrow> (w, Some (HeaderError (Key h) err))
                | (w, None) \<Rightarrow> WriteTo_loop x opts seen hs w)
         | None \<Rightarrow>
             (case writeHeader x w HeaderTypeOpaque (Key h) (Value h) opts of
                (w, Some err) \<Rightarrow> (w, Some (HeaderError (Key h) err))
              | (w, None) \<Rightarrow> WriteTo_loop x opts seen hs w)))"

definition WriteTo :: "Ext \<Rightarrow> Header \<Rightarrow> string \<Rightarrow> Options \<Rightarrow> string \<times> error option" where
  "WriteTo x h w opts = WriteTo_loop x opts {} (Headers h) w"

section \<open>The claims, as definitions\<close>

subsection \<open>Set\<close>

text \<open>
  \<open>Set(key, value)\<close> as the specification words it: canonicalize the key; fail if it
  is not in the registry; if the value is non-empty, run the validator and fail on
  invalid syntax; otherwise replace the first entry with this key, or append.
\<close>

definition first_index :: "string \<Rightarrow> KV list \<Rightarrow> nat" where
  "first_index k hs = length (takeWhile (\<lambda>kv. Key kv \<noteq> k) hs)"

definition Set_spec :: "Ext \<Rightarrow> Header \<Rightarrow> string \<Rightarrow> string \<Rightarrow> Header \<times> error option" where
  "Set_spec x h key value =
     (let k = CanonicalMIMEHeaderKey key in
      case HeaderSyntax k of
        None \<Rightarrow> (h, Some (NotStandardHeader k))
      | Some rule \<Rightarrow>
          if value \<noteq> [] \<and> checkHeader x (Type rule) value \<noteq> None
          then (h, Some (InvalidValue key (the (checkHeader x (Type rule) value))))
          else if k \<in> Key ` set (Headers h)
          then (h\<lparr>Headers := (Headers h)[first_index k (Headers h) := \<lparr>Key = k, Value = value\<rparr>]\<rparr>, None)
          else (h\<lparr>Headers := Headers h @ [\<lparr>Key = k, Value = value\<rparr>]\<rparr>, None))"

subsection \<open>ReadHeader\<close>

text \<open>
  \<open>ReadHeader\<close> as the specification words it, line by line: the text before the
  first colon, with trailing spaces trimmed, is the raw key; a line with no colon is a
  malformed-line error carrying the line; a line with an empty raw key is skipped; the
  value is what follows the colon and the spaces and tabs after it; the entry is
  appended with the canonical key; an empty line, as the reader gives for a blank
  line, ends the header, and the header built so far is returned with the error of the
  stream if there is one; the end of the stream ends the header normally, with no
  error.
\<close>

definition trim_trailing_spaces :: "string \<Rightarrow> string" where
  "trim_trailing_spaces s = rev (dropWhile (\<lambda>c. c = SP) (rev s))"

fun ReadHeader_spec_loop :: "Header \<Rightarrow> Reader \<Rightarrow> Header \<times> error option" where
  "ReadHeader_spec_loop m [] = (m, None)"
| "ReadHeader_spec_loop m ((line, err) # rest) =
     (if line = [] then (m, err)
      else if CHR '':'' \<notin> set line
      then (m, Some (ProtocolError (''malformed MIME header line: '' @ line)))
      else
        let raw_key = trim_trailing_spaces (takeWhile (\<lambda>c. c \<noteq> CHR '':'') line) in
        if raw_key = [] then ReadHeader_spec_loop m rest
        else
          let value = dropWhile (\<lambda>c. c = SP \<or> c = TAB) (tl (dropWhile (\<lambda>c. c \<noteq> CHR '':'') line));
              m' = m\<lparr>Headers := Headers m @ [\<lparr>Key = CanonicalMIMEHeaderKey raw_key, Value = value\<rparr>]\<rparr>
          in if err \<noteq> None then (m', err) else ReadHeader_spec_loop m' rest)"

definition ReadHeader_spec :: "Reader \<Rightarrow> Header \<times> error option" where
  "ReadHeader_spec r = ReadHeader_spec_loop \<lparr>Headers = []\<rparr> r"

subsection \<open>WriteTo\<close>

text \<open>
  The entries that \<open>WriteTo\<close> renders, as the specification words it. An entry is
  \<open>visible\<close> unless its value is empty and \<open>RenderBlank\<close> is off, or it is \<open>Bcc\<close> and
  \<open>RenderBCC\<close> is off, or it is \<open>Return-Path\<close> and \<open>RenderReturnPath\<close> is off. Going
  through the entries in order, \<open>before\<close> holding the entries rendered so far, a visible
  entry is rendered unless its key is registered as unique and an entry of \<open>before\<close> has
  that key. \<open>render_all\<close> renders a list of entries one after the other and stops at the
  first error.
\<close>

definition visible :: "Options \<Rightarrow> KV \<Rightarrow> bool" where
  "visible opts h =
     (\<not> (Value h = [] \<and> \<not> RenderBlank opts) \<and>
      \<not> (Key h = ''Bcc'' \<and> \<not> RenderBCC opts) \<and>
      \<not> (Key h = ''Return-Path'' \<and> \<not> RenderReturnPath opts))"

definition unique_key :: "string \<Rightarrow> bool" where
  "unique_key k = (case HeaderSyntax k of Some rule \<Rightarrow> Unique rule | None \<Rightarrow> False)"

definition type_of_key :: "string \<Rightarrow> HeaderType" where
  "type_of_key k = (case HeaderSyntax k of Some rule \<Rightarrow> Type rule | None \<Rightarrow> HeaderTypeOpaque)"

fun rendered :: "Options \<Rightarrow> KV list \<Rightarrow> KV list \<Rightarrow> KV list" where
  "rendered opts before [] = []"
| "rendered opts before (h # hs) =
     (if visible opts h \<and> \<not> (unique_key (Key h) \<and> Key h \<in> Key ` set before)
      then h # rendered opts (before @ [h]) hs
      else rendered opts before hs)"

fun render_all :: "Ext \<Rightarrow> Options \<Rightarrow> KV list \<Rightarrow> string \<Rightarrow> string \<times> error option" where
  "render_all x opts [] w = (w, None)"
| "render_all x opts (h # hs) w =
     (case writeHeader x w (type_of_key (Key h)) (Key h) (Value h) opts of
        (w', Some err) \<Rightarrow> (w', Some (HeaderError (Key h) err))
      | (w', None) \<Rightarrow> render_all x opts hs w')"


subsection \<open>Canonical form\<close>

text \<open>
  The canonical form of a key as the specification words it: the key split on hyphens,
  the first letter of each segment capitalized, the remainder lowercase.
\<close>

definition capitalize :: "string \<Rightarrow> string" where
  "capitalize seg = (case seg of [] \<Rightarrow> [] | c # cs \<Rightarrow> toUpper c # map toLower cs)"

definition canonical_form :: "string \<Rightarrow> string" where
  "canonical_form k = Join (map capitalize (Split k CHR ''-'')) ''-''"

definition is_canonical :: "string \<Rightarrow> bool" where
  "is_canonical k = (canonical_form k = k)"

text \<open>
  The operations that build a header: it starts empty or as the header that
  \<open>ReadHeader\<close> returns, and then any sequence of \<open>Add\<close>, \<open>Set\<close> (whose error, if any,
  the caller drops), \<open>RemoveAll\<close> and \<open>Normalize\<close> follows.
\<close>

datatype op = OpAdd string string | OpSet string string | OpRemoveAll string | OpNormalize

fun apply_op :: "Ext \<Rightarrow> Header \<Rightarrow> op \<Rightarrow> Header" where
  "apply_op x h (OpAdd key value) = Add h key value"
| "apply_op x h (OpSet key value) = fst (Set x h key value)"
| "apply_op x h (OpRemoveAll key) = RemoveAll h key"
| "apply_op x h OpNormalize = Normalize h"

definition start :: "Reader option \<Rightarrow> Header" where
  "start src = (case src of None \<Rightarrow> \<lparr>Headers = []\<rparr> | Some r \<Rightarrow> fst (ReadHeader r))"

definition run :: "Ext \<Rightarrow> Reader option \<Rightarrow> op list \<Rightarrow> Header" where
  "run x src ops = foldl (apply_op x) (start src) ops"

definition canon_fixed :: "Header \<Rightarrow> bool" where
  "canon_fixed h = (\<forall>kv \<in> set (Headers h). CanonicalMIMEHeaderKey (Key kv) = Key kv)"

subsection \<open>Message identifiers\<close>

text \<open>
  The rule for a \<open>MessageID\<close> as the specification words it: optional white space, \<open><\<close>,
  one or more runs of atext characters separated by single dots, \<open>@\<close>, one or more
  dot-separated atext runs, \<open>>\<close>, optional white space, and nothing else. Its atext
  class is \<open>[A-Za-z0-9!#$%&'*+\-/=?^_`{|}~]\<close>, with the hyphen escaped.
\<close>

definition atext_spec :: rexp where
  "atext_spec = Cls
     [(CHR ''A'', CHR ''Z''), (CHR ''a'', CHR ''z''), (CHR ''0'', CHR ''9''),
      (CHR ''!'', CHR ''!''), (CHR ''#'', CHR ''#''), (CHR ''$'', CHR ''$''),
      (CHR ''%'', CHR ''%''), (CHR ''&'', CHR ''&''), (CHR 0x27, CHR 0x27),
      (CHR ''*'', CHR ''*''), (CHR ''+'', CHR ''+''), (CHR ''-'', CHR ''-''),
      (CHR ''/'', CHR ''/''), (CHR ''='', CHR ''=''),
      (CHR ''?'', CHR ''?''), (CHR ''^'', CHR ''^''), (CHR ''_'', CHR ''_''),
      (CHR 0x60, CHR 0x60), (CHR ''{'', CHR ''{''), (CHR ''|'', CHR ''|''),
      (CHR ''}'', CHR ''}''), (CHR ''~'', CHR ''~'')]"

definition messageId_spec :: rexp where
  "messageId_spec = seqs
     [Star re_s, Lit CHR ''<'',
      Plus atext_spec, Star (Seq (Lit CHR ''.'') (Plus atext_spec)),
      Lit CHR ''@'',
      Plus atext_spec, Star (Seq (Lit CHR ''.'') (Plus atext_spec)),
      Lit CHR ''>'', Star re_s]"

text \<open>A match of the whole string: nothing remains after it.\<close>

definition matches_whole :: "rexp \<Rightarrow> string \<Rightarrow> bool" where
  "matches_whole r s = ([] \<in> set (rmatch r s))"

definition is_MessageID_spec :: "string \<Rightarrow> bool" where
  "is_MessageID_spec s = matches_whole messageId_spec s"

subsection \<open>Normalize\<close>

text \<open>A string that \<open>ReplaceAllSpace\<close> leaves as it is.\<close>

definition fixed :: "string \<Rightarrow> bool" where
  "fixed s = (ReplaceAllSpace s = s)"

subsection \<open>Lines of writeHeader\<close>

text \<open>
  The lines of an output: the text before each CRLF, and what is left after the last
  one if that is not empty.
\<close>

fun lines_crlf :: "string \<Rightarrow> string \<Rightarrow> string list" where
  "lines_crlf cur [] = (if cur = [] then [] else [cur])"
| "lines_crlf cur (c # cs) =
     (if c = LF \<and> cur \<noteq> [] \<and> last cur = CR then butlast cur # lines_crlf [] cs
      else lines_crlf (cur @ [c]) cs)"

definition emitted_lines :: "string \<Rightarrow> string list" where
  "emitted_lines out = lines_crlf [] out"

text \<open>The white space at which the engine ends a token.\<close>

definition is_wsp :: "char \<Rightarrow> bool" where
  "is_wsp c = (c = SP \<or> c = TAB \<or> c = VT \<or> c = FF)"

text \<open>
  The claim as it is stated: a line has at most 78 characters, or one of its tokens,
  the runs between white space, is itself longer than 78.
\<close>

fun tokens :: "string \<Rightarrow> string \<Rightarrow> string list" where
  "tokens cur [] = [cur]"
| "tokens cur (c # cs) = (if is_wsp c then cur # tokens [] cs else tokens (cur @ [c]) cs)"

definition claimed_line_ok :: "string \<Rightarrow> bool" where
  "claimed_line_ok l = (length l \<le> 78 \<or> list_ex (\<lambda>t. length t > 78) (tokens [] l))"

text \<open>
  The claim as amended. \<open>scan q s\<close> goes through \<open>s\<close> as the engine does, \<open>q\<close> saying
  whether it is inside a quoted string: it is \<open>None\<close> if \<open>s\<close> has white space outside
  quotes, where the engine could have wrapped, and else the state at the end. A line
  holds \<open>one_word\<close> if, after the white space at its start, it has no white space
  outside quotes: it is a single token and could not be split. \<open>line_ok n l\<close>: the text
  \<open>l\<close>, which follows \<open>n\<close> characters on its line, keeps the line within 78 characters or
  is one token. On the first line the text follows \<open>Key: \<close>.
\<close>

fun scan :: "bool \<Rightarrow> string \<Rightarrow> bool option" where
  "scan q [] = Some q"
| "scan q (c # cs) =
     (if c = CHR 0x22 then scan (\<not> q) cs
      else if q then scan q cs
      else if is_wsp c then None
      else scan q cs)"

definition one_word :: "string \<Rightarrow> bool" where
  "one_word l = (scan False (dropWhile is_wsp l) \<noteq> None)"

definition line_ok :: "nat \<Rightarrow> string \<Rightarrow> bool" where
  "line_ok n l = (n + length l \<le> 78 \<or> one_word l)"

text \<open>
  \<open>folded val c0 ls\<close>: the lines \<open>ls\<close> are the value \<open>val\<close> cut into pieces, the first
  of them following \<open>c0\<close> characters on its line. Nothing of the value is lost, added or
  moved. The first line is not empty unless the value is, so the first token stays on
  it. Every later line begins with a white space character, and every line but the
  last has an even number of double quotes, so the value is cut only before white space
  that is outside quoted strings, and no token is split. Every line keeps within 78
  characters or holds one token.
\<close>

definition balanced :: "string \<Rightarrow> bool" where
  "balanced l = even (count_list l (CHR 0x22))"

definition cont_ok :: "string \<Rightarrow> bool" where
  "cont_ok l = (l \<noteq> [] \<and> is_wsp (hd l) \<and> line_ok 0 l)"

definition folded :: "string \<Rightarrow> nat \<Rightarrow> string list \<Rightarrow> bool" where
  "folded val c0 ls =
     (concat ls = val \<and>
      (case ls of
         [] \<Rightarrow> False
       | d # ds \<Rightarrow> (val = [] \<or> d \<noteq> []) \<and> line_ok c0 d \<and> list_all cont_ok ds) \<and>
      list_all balanced (butlast ls))"

text \<open>
  The lines of the value in an output of \<open>writeHeader\<close>: what follows the writer's
  earlier content, the key and \<open>: \<close>, split at CRLF.
\<close>

definition value_lines :: "string \<Rightarrow> string \<Rightarrow> string \<Rightarrow> string list" where
  "value_lines w key out = emitted_lines (drop (length w + length key + 2) out)"

definition terminated :: "string list \<Rightarrow> string" where
  "terminated ls = concat (map (\<lambda>l. l @ CRLF) ls)"

text \<open>
  The invariant of the scanning loop, for a value with no CR and no LF. \<open>P\<close> is the
  writer before the loop, \<open>c0\<close> the column there. The bytes of the value before
  \<open>tokenStart\<close> have been written, as the finished lines \<open>earlier\<close>, each followed by
  CRLF, and the line \<open>cur\<close> that is still open; \<open>column\<close> is the length of the open line;
  every continuation line starts with the white space that began its first token; every
  line has an even number of double quotes; the pending token, from \<open>tokenStart\<close> to
  \<open>i\<close>, has no white space outside quotes after its first byte, and \<open>inString\<close> is the
  state after it.
\<close>

definition tok_state :: "string \<Rightarrow> bool option" where
  "tok_state t = (case t of [] \<Rightarrow> Some False | c # cs \<Rightarrow> scan (c = CHR 0x22) cs)"

definition lines_ok :: "nat \<Rightarrow> string list \<Rightarrow> string \<Rightarrow> bool" where
  "lines_ok c0 earlier cur =
     (case earlier of [] \<Rightarrow> line_ok c0 cur
      | d # ds \<Rightarrow> d \<noteq> [] \<and> line_ok c0 d \<and> list_all cont_ok ds \<and> cont_ok cur)"

definition fold_inv ::
  "string \<Rightarrow> nat \<Rightarrow> string \<Rightarrow> nat \<Rightarrow> bool \<Rightarrow> nat \<Rightarrow> nat \<Rightarrow> string \<Rightarrow> bool" where
  "fold_inv val c0 P i q ts col w =
     (ts \<le> i \<and> i \<le> length val \<and> 2 \<le> c0 \<and>
      tok_state (slice val ts i) = Some q \<and>
      (ts \<noteq> 0 \<longrightarrow> ts < i \<and> is_wsp (val ! ts)) \<and>
      (\<exists>earlier cur.
         w = P @ terminated earlier @ cur \<and>
         concat earlier @ cur = take ts val \<and>
         col = (if earlier = [] then c0 else 0) + length cur \<and>
         lines_ok c0 earlier cur \<and>
         list_all balanced earlier \<and> balanced cur))"

section \<open>Properties\<close>

subsection \<open>Evaluations used by the examples\<close>

lemma canon_subject: "CanonicalMIMEHeaderKey ''subject'' = ''Subject''"
  by code_simp

lemma canon_x_mailer: "CanonicalMIMEHeaderKey ''X-Mailer'' = ''X-Mailer''"
  by code_simp

lemma HeaderSyntax_Subject:
  "HeaderSyntax ''Subject'' = Some (entry False True HeaderTypeUnstructured)"
  by code_simp

lemma HeaderSyntax_X_Mailer: "HeaderSyntax ''X-Mailer'' = None"
  by code_simp

subsection \<open>Set\<close>

lemma Set_loop_first:
  "Set_loop k v hs =
     (if k \<in> Key ` set hs then Some (hs[first_index k hs := \<lparr>Key = k, Value = v\<rparr>]) else None)"
  by (induction hs) (auto simp: first_index_def)

text \<open>
  Claim C4. For every key and value, \<open>Set\<close> canonicalizes the key; returns an error if the
  canonical key is not in the registry; if the value is non-empty, runs the validator
  for the type of the key and returns an error on invalid syntax; and otherwise replaces
  the first entry whose key is the canonical key, all other entries staying as they
  are, or appends a new entry if no entry has that key.
\<close>

theorem Set_refines_spec: "Set x h key value = Set_spec x h key value"
  by (auto simp: Set_def Set_spec_def Let_def Set_loop_first split: option.splits)

theorem Set_refines_spec_witness:
  "\<forall>x. Set x \<lparr>Headers = [\<lparr>Key = ''To'', Value = ''a''\<rparr>, \<lparr>Key = ''Subject'', Value = ''old''\<rparr>,
          \<lparr>Key = ''Subject'', Value = ''older''\<rparr>]\<rparr> ''subject'' ''new''
     = (\<lparr>Headers = [\<lparr>Key = ''To'', Value = ''a''\<rparr>, \<lparr>Key = ''Subject'', Value = ''new''\<rparr>,
          \<lparr>Key = ''Subject'', Value = ''older''\<rparr>]\<rparr>, None)"
  unfolding Set_refines_spec
  by (simp add: Set_spec_def Let_def canon_subject HeaderSyntax_Subject entry_def
      checkHeader_def first_index_def)

text \<open>
  Claim C9. Whenever \<open>Set\<close> returns an error, the header is what it was before the call.
\<close>

theorem Set_error_keeps_header:
  "snd (Set x h key value) \<noteq> None \<Longrightarrow> fst (Set x h key value) = h"
  by (auto simp: Set_def Let_def split: option.splits if_splits)

theorem Set_error_keeps_header_witness:
  "\<forall>x. snd (Set x \<lparr>Headers = [\<lparr>Key = ''To'', Value = ''a''\<rparr>]\<rparr> ''X-Mailer'' ''v'') \<noteq> None
     \<and> fst (Set x \<lparr>Headers = [\<lparr>Key = ''To'', Value = ''a''\<rparr>]\<rparr> ''X-Mailer'' ''v'')
        = \<lparr>Headers = [\<lparr>Key = ''To'', Value = ''a''\<rparr>]\<rparr>"
proof
  fix x
  have e: "snd (Set x \<lparr>Headers = [\<lparr>Key = ''To'', Value = ''a''\<rparr>]\<rparr> ''X-Mailer'' ''v'') \<noteq> None"
    by (simp add: Set_def canon_x_mailer HeaderSyntax_X_Mailer)
  from e Set_error_keeps_header [OF e]
  show "snd (Set x \<lparr>Headers = [\<lparr>Key = ''To'', Value = ''a''\<rparr>]\<rparr> ''X-Mailer'' ''v'') \<noteq> None
     \<and> fst (Set x \<lparr>Headers = [\<lparr>Key = ''To'', Value = ''a''\<rparr>]\<rparr> ''X-Mailer'' ''v'')
        = \<lparr>Headers = [\<lparr>Key = ''To'', Value = ''a''\<rparr>]\<rparr>"
    by simp
qed

subsection \<open>ReadHeader\<close>

lemma IndexByte_ge: "- 1 \<le> IndexByte kv c"
  by (induction kv) (auto simp: Let_def)

lemma IndexByte_neg: "IndexByte kv c < 0 \<longleftrightarrow> c \<notin> set kv"
  using IndexByte_ge [of _ c]
  by (induction kv) (auto simp: Let_def)

lemma IndexByte_takeWhile:
  "c \<in> set kv \<Longrightarrow> IndexByte kv c = int (length (takeWhile (\<lambda>b. b \<noteq> c) kv))"
  by (induction kv) (auto simp: Let_def IndexByte_neg)

lemma trim_trailing_snoc_SP: "trim_trailing_spaces (s @ [SP]) = trim_trailing_spaces s"
  by (simp add: trim_trailing_spaces_def)

lemma trim_trailing_snoc_other: "c \<noteq> SP \<Longrightarrow> trim_trailing_spaces (s @ [c]) = s @ [c]"
  by (simp add: trim_trailing_spaces_def)

lemma take_endKey_loop:
  "n \<le> length kv \<Longrightarrow> take (endKey_loop kv n) kv = trim_trailing_spaces (take n kv)"
proof (induction kv n rule: endKey_loop.induct)
  case (1 kv n)
  show ?case
  proof (cases "n > 0 \<and> kv ! (n - 1) = SP")
    case True
    then obtain k where k: "n = Suc k" by (cases n) auto
    with 1 True have "take n kv = take k kv @ [SP]"
      by (simp add: take_Suc_conv_app_nth)
    moreover from 1 True k have "take (endKey_loop kv k) kv = trim_trailing_spaces (take k kv)"
      by simp
    ultimately show ?thesis
      using True k by (subst endKey_loop.simps) (simp add: trim_trailing_snoc_SP)
  next
    case False
    show ?thesis
    proof (cases n)
      case 0
      then show ?thesis by (subst endKey_loop.simps) (simp add: trim_trailing_spaces_def)
    next
      case (Suc k)
      with 1 False have "take n kv = take k kv @ [kv ! k]" "kv ! k \<noteq> SP"
        by (simp_all add: take_Suc_conv_app_nth)
      then show ?thesis
        using False Suc by (subst endKey_loop.simps) (auto simp: trim_trailing_snoc_other)
    qed
  qed
qed

lemma drop_skip_blank_loop:
  "drop (skip_blank_loop kv i) kv = dropWhile (\<lambda>c. c = SP \<or> c = TAB) (drop i kv)"
proof (induction kv i rule: skip_blank_loop.induct)
  case (1 kv i)
  show ?case
  proof (cases "i < length kv")
    case True
    then have d: "drop i kv = kv ! i # drop (Suc i) kv"
      by (simp add: Cons_nth_drop_Suc)
    show ?thesis
      using 1 True by (subst skip_blank_loop.simps) (auto simp: d)
  next
    case False
    then show ?thesis by (subst skip_blank_loop.simps) simp
  qed
qed

lemma length_canon_loop: "length (canon_loop u s) = length s"
  by (induction s arbitrary: u) (auto simp: Let_def)

lemma canon_empty: "CanonicalMIMEHeaderKey k = [] \<longleftrightarrow> k = []"
  using length_canon_loop [of True k]
  by (auto simp: CanonicalMIMEHeaderKey_def simp del: length_canon_loop)

lemma byte_char_of: "n < 256 \<Longrightarrow> byte (char_of n) = n"
  by (simp add: byte_def)

lemma isUpper_toUpper: "isLower c \<Longrightarrow> isUpper (char_of (byte c - 32))"
  using byte_char_of [of "byte c - 32"] by (auto simp: isLower_def isUpper_def)

lemma isLower_toLower: "isUpper c \<Longrightarrow> isLower (char_of (byte c + 32))"
  using byte_char_of [of "byte c + 32"] by (auto simp: isLower_def isUpper_def)

lemma not_lower_upper: "isUpper c \<Longrightarrow> \<not> isLower c"
  by (simp add: isLower_def isUpper_def)

lemma toUpper_idem: "toUpper (toUpper c) = toUpper c"
  by (auto simp: toUpper_def dest: isUpper_toUpper not_lower_upper)

lemma toLower_idem: "toLower (toLower c) = toLower c"
  using isLower_toLower [of c] not_lower_upper [of "char_of (byte c + 32)"]
  by (auto simp: toLower_def)

lemma valid_toUpper: "validHeaderFieldByte c \<Longrightarrow> validHeaderFieldByte (toUpper c)"
  by (auto simp: toUpper_def validHeaderFieldByte_def dest: isUpper_toUpper)

lemma valid_toLower: "validHeaderFieldByte c \<Longrightarrow> validHeaderFieldByte (toLower c)"
  by (auto simp: toLower_def validHeaderFieldByte_def dest: isLower_toLower)

lemma valid_canon_loop: "list_all validHeaderFieldByte s \<Longrightarrow> list_all validHeaderFieldByte (canon_loop u s)"
  by (induction s arbitrary: u) (auto simp: Let_def valid_toUpper valid_toLower)

lemma canon_loop_idem: "canon_loop u (canon_loop u s) = canon_loop u s"
  by (induction s arbitrary: u) (auto simp: Let_def toUpper_idem toLower_idem)

lemma canon_idem: "CanonicalMIMEHeaderKey (CanonicalMIMEHeaderKey k) = CanonicalMIMEHeaderKey k"
  by (simp add: CanonicalMIMEHeaderKey_def valid_canon_loop canon_loop_idem)

lemma ReadHeader_loop_spec:
  "[] \<in> fst ` set r \<Longrightarrow> ReadHeader_loop m r = ReadHeader_spec_loop m r"
proof (induction r arbitrary: m)
  case Nil
  then show ?case by simp
next
  case (Cons a r)
  obtain kv err where a: "a = (kv, err)" by (cases a)
  show ?case
  proof (cases "kv = []")
    case True
    then show ?thesis by (simp add: a)
  next
    case ne: False
    with Cons.prems have r: "[] \<in> fst ` set r" by (auto simp: a)
    note IH = Cons.IH [OF r]
    show ?thesis
    proof (cases "CHR '':'' \<in> set kv")
      case False
      then show ?thesis by (simp add: a IndexByte_neg Let_def)
    next
      case True
      let ?n = "length (takeWhile (\<lambda>b. b \<noteq> CHR '':'') kv)"
      have i: "IndexByte kv CHR '':'' = int ?n" by (rule IndexByte_takeWhile [OF True])
      have n: "?n \<le> length kv" by (rule length_takeWhile_le)
      have k: "take (endKey_loop kv ?n) kv = trim_trailing_spaces (takeWhile (\<lambda>b. b \<noteq> CHR '':'') kv)"
        by (simp add: take_endKey_loop [OF n] takeWhile_eq_take [symmetric])
      have v: "drop (skip_blank_loop kv (Suc ?n)) kv
          = dropWhile (\<lambda>c. c = SP \<or> c = TAB) (tl (dropWhile (\<lambda>b. b \<noteq> CHR '':'') kv))"
        by (simp add: drop_skip_blank_loop dropWhile_eq_drop drop_Suc tl_drop)
      have s: "nat (int ?n + 1) = Suc ?n" by simp
      show ?thesis
        using True IH
        by (simp add: a i s k v Let_def Add_def canon_idem canon_empty IndexByte_neg
            del: take_eq_Nil take_eq_Nil2)
    qed
  qed
qed

text \<open>
  Up to the end of the stream \<open>ReadHeader\<close> does what the specification says: for a
  reader that gives an empty line at some point, a blank line or a failed read, it
  returns what \<open>ReadHeader_spec\<close> returns.
\<close>

lemma ReadHeader_spec_before_stream_end:
  "[] \<in> fst ` set r \<Longrightarrow> ReadHeader r = ReadHeader_spec r"
  by (simp add: ReadHeader_def ReadHeader_spec_def ReadHeader_loop_spec)

text \<open>
  Claim C3 says that \<open>ReadHeader\<close> stops normally on a blank line or at the end of the
  stream. The code is evaluated on the stream \<open>Foo: bar\<close>, which ends with no blank
  line (the cases \<open>headersnolf\<close> and \<open>headerslf\<close> of \<open>TestReadMessage\<close>): the reader gives
  the line and then, at the end of the stream, no line and \<open>EOF\<close>. \<open>ReadHeader\<close> returns
  the header with the error \<open>EOF\<close>, where the specification stops with no error, and
  \<open>ReadMessage\<close> fails with it, where the test expects the message.
\<close>

theorem ReadHeader_stream_end_error:
  "ReadHeader [(''Foo: bar'', None)]
     = (\<lparr>Headers = [\<lparr>Key = ''Foo'', Value = ''bar''\<rparr>]\<rparr>, Some EOF)
   \<and> ReadHeader_spec [(''Foo: bar'', None)]
     = (\<lparr>Headers = [\<lparr>Key = ''Foo'', Value = ''bar''\<rparr>]\<rparr>, None)
   \<and> ReadMessage [(''Foo: bar'', None)] = Inl EOF
   \<and> ReadMessage [(''Foo: bar'', None), ([], None)]
     = Inr \<lparr>Headers = [\<lparr>Key = ''Foo'', Value = ''bar''\<rparr>]\<rparr>"
  by code_simp

subsection \<open>WriteTo\<close>

lemma WriteTo_loop_rendered:
  "seen = {k \<in> Key ` set before. unique_key k} \<Longrightarrow>
   WriteTo_loop x opts seen hs w = render_all x opts (rendered opts before hs) w"
proof (induction hs arbitrary: seen before w)
  case Nil
  show ?case by simp
next
  case (Cons h hs)
  have a: "insert (Key h) seen = {k \<in> Key ` set (before @ [h]). unique_key k}"
    if "unique_key (Key h)"
    using that Cons.prems by auto
  have b: "seen = {k \<in> Key ` set (before @ [h]). unique_key k}"
    if "\<not> unique_key (Key h)"
    using that Cons.prems by auto
  show ?case
  proof (cases "HeaderSyntax (Key h)")
    case None
    then have nu: "\<not> unique_key (Key h)" by (simp add: unique_key_def)
    show ?thesis
      using None Cons.IH [OF b [OF nu]] Cons.IH [OF Cons.prems] nu
      by (auto simp: visible_def type_of_key_def HdrBcc_def HdrReturnPath_def
          split: prod.splits option.splits)
  next
    case (Some rule)
    show ?thesis
    proof (cases "Unique rule")
      case True
      then have u: "unique_key (Key h)" by (simp add: unique_key_def Some)
      have m: "Key h \<in> seen \<longleftrightarrow> Key h \<in> Key ` set before"
        using Cons.prems u by auto
      show ?thesis
        using Some True Cons.IH [OF a [OF u]] Cons.IH [OF Cons.prems] u m
        by (auto simp: visible_def type_of_key_def HdrBcc_def HdrReturnPath_def Let_def
            split: prod.splits option.splits)
    next
      case False
      then have nu: "\<not> unique_key (Key h)" by (simp add: unique_key_def Some)
      show ?thesis
        using Some False Cons.IH [OF b [OF nu]] Cons.IH [OF Cons.prems] nu
        by (auto simp: visible_def type_of_key_def HdrBcc_def HdrReturnPath_def Let_def
            split: prod.splits option.splits)
    qed
  qed
qed

lemma rendered_unique_once:
  "distinct (filter unique_key (map Key (rendered opts before hs))) \<and>
   (\<forall>k \<in> set (map Key (rendered opts before hs)). unique_key k \<longrightarrow> k \<notin> Key ` set before)"
proof (induction hs arbitrary: before)
  case Nil
  show ?case by simp
next
  case (Cons h hs)
  show ?case
    using Cons.IH [of "before @ [h]"] Cons.IH [of before]
    by (auto simp: image_iff)
qed

text \<open>
  Claim C5. \<open>WriteTo\<close> goes through the entries in order and renders each one except:
  entries with an empty value unless \<open>RenderBlank\<close> is on; \<open>Bcc\<close> unless \<open>RenderBCC\<close> is
  on; \<open>Return-Path\<close> unless \<open>RenderReturnPath\<close> is on; and an entry whose key is
  registered as unique when an entry with the same key has been rendered before in the
  call. So a unique key appears at most once among the rendered entries.
\<close>

theorem WriteTo_renders:
  "WriteTo x h w opts = render_all x opts (rendered opts [] (Headers h)) w \<and>
   distinct (filter unique_key (map Key (rendered opts [] (Headers h))))"
  using WriteTo_loop_rendered [of "{}" "[]"] rendered_unique_once [of opts "[]"]
  by (simp add: WriteTo_def)


theorem WriteTo_renders_witness:
  "\<forall>x. WriteTo x \<lparr>Headers = [\<lparr>Key = ''Subject'', Value = ''a''\<rparr>, \<lparr>Key = ''Bcc'', Value = ''b@c.d''\<rparr>,
         \<lparr>Key = ''Subject'', Value = ''b''\<rparr>, \<lparr>Key = ''X-A'', Value = []\<rparr>,
         \<lparr>Key = ''X-A'', Value = ''1''\<rparr>, \<lparr>Key = ''X-A'', Value = ''2''\<rparr>]\<rparr> []
         \<lparr>RenderBCC = False, RenderBlank = False, NoEscape = False, RenderReturnPath = False\<rparr>
     = (''Subject: a'' @ CRLF @ ''X-A: 1'' @ CRLF @ ''X-A: 2'' @ CRLF, None)"
proof
  fix x
  let ?o = "\<lparr>RenderBCC = False, RenderBlank = False, NoEscape = False, RenderReturnPath = False\<rparr>"
  let ?hs = "[\<lparr>Key = ''Subject'', Value = ''a''\<rparr>, \<lparr>Key = ''Bcc'', Value = ''b@c.d''\<rparr>,
         \<lparr>Key = ''Subject'', Value = ''b''\<rparr>, \<lparr>Key = ''X-A'', Value = []\<rparr>,
         \<lparr>Key = ''X-A'', Value = ''1''\<rparr>, \<lparr>Key = ''X-A'', Value = ''2''\<rparr>]"
  have "render_all x ?o (rendered ?o [] ?hs) []
     = (''Subject: a'' @ CRLF @ ''X-A: 1'' @ CRLF @ ''X-A: 2'' @ CRLF, None)"
    by code_simp
  then show "WriteTo x \<lparr>Headers = ?hs\<rparr> [] ?o
     = (''Subject: a'' @ CRLF @ ''X-A: 1'' @ CRLF @ ''X-A: 2'' @ CRLF, None)"
    using WriteTo_renders [of x "\<lparr>Headers = ?hs\<rparr>" "[]" ?o] by simp
qed


subsection \<open>Canonical form of the stored keys\<close>

lemma Split_not_Nil: "Split s sep \<noteq> []"
  by (induction s) (auto split: list.splits)

lemma Join_Cons_Cons: "Join ((c # a) # rest) sep = c # Join (a # rest) sep"
  by (cases rest) auto

lemma toUpper_hyphen: "toUpper c = CHR ''-'' \<longleftrightarrow> c = CHR ''-''"
proof (cases "isLower c")
  case True
  then have "isUpper (toUpper c)"
    using isUpper_toUpper by (simp add: toUpper_def)
  then have "toUpper c \<noteq> CHR ''-''"
    by (auto simp: isUpper_def byte_def)
  moreover from True have "c \<noteq> CHR ''-''"
    by (auto simp: isLower_def byte_def)
  ultimately show ?thesis by simp
next
  case False
  then show ?thesis by (simp add: toUpper_def)
qed

lemma toLower_hyphen: "toLower c = CHR ''-'' \<longleftrightarrow> c = CHR ''-''"
proof (cases "isUpper c")
  case True
  then have "isLower (toLower c)"
    using isLower_toLower by (simp add: toLower_def)
  then have "toLower c \<noteq> CHR ''-''"
    by (auto simp: isLower_def byte_def)
  moreover from True have "c \<noteq> CHR ''-''"
    by (auto simp: isUpper_def byte_def)
  ultimately show ?thesis by simp
next
  case False
  then show ?thesis by (simp add: toLower_def)
qed

lemma canon_loop_Split:
  "canon_loop u s =
     (case Split s CHR ''-'' of
        p # ps \<Rightarrow> Join ((if u then capitalize p else map toLower p) # map capitalize ps) ''-''
      | [] \<Rightarrow> [])"
proof (induction s arbitrary: u)
  case Nil
  show ?case by (simp add: capitalize_def)
next
  case (Cons c cs)
  obtain p ps where sp: "Split cs CHR ''-'' = p # ps"
    using Split_not_Nil [of cs "CHR ''-''"] by (cases "Split cs CHR ''-''") auto
  show ?case
  proof (cases "c = CHR ''-''")
    case True
    have h: "toUpper CHR ''-'' = CHR ''-''" "toLower CHR ''-'' = CHR ''-''"
      by (simp_all add: toUpper_hyphen toLower_hyphen)
    show ?thesis
      using True Cons.IH [of True]
      by (simp add: sp h Let_def capitalize_def)
  next
    case False
    then show ?thesis
      using Cons.IH [of False]
      by (simp add: sp Let_def toUpper_hyphen toLower_hyphen capitalize_def Join_Cons_Cons)
  qed
qed

lemma canon_loop_canonical_form: "canon_loop True s = canonical_form s"
  using Split_not_Nil [of s "CHR ''-''"]
  by (simp add: canon_loop_Split canonical_form_def split: list.splits)

lemma canon_fixed_Add: "canon_fixed h \<Longrightarrow> canon_fixed (Add h key value)"
  by (simp add: canon_fixed_def Add_def Let_def canon_idem)

lemma Set_loop_keys:
  "Set_loop k v hs = Some hs' \<Longrightarrow> Key ` set hs' \<subseteq> insert k (Key ` set hs)"
  by (auto simp: Set_loop_first split: if_splits dest!: set_update_subset_insert [THEN subsetD])

lemma canon_fixed_Set: "canon_fixed h \<Longrightarrow> canon_fixed (fst (Set x h key value))"
proof -
  assume a: "canon_fixed h"
  have "canon_fixed (h\<lparr>Headers := hs'\<rparr>)"
    if "Set_loop (CanonicalMIMEHeaderKey key) value (Headers h) = Some hs'" for hs'
    using Set_loop_keys [OF that] a by (auto simp: canon_fixed_def canon_idem)
  with a show ?thesis
    by (auto simp: Set_def Let_def canon_fixed_def canon_idem split: option.splits)
qed

lemma RemoveAll_loop_filter:
  "RemoveAll_loop k acc hs = acc @ filter (\<lambda>kv. Key kv \<noteq> k) hs"
  by (induction hs arbitrary: acc) auto

lemma canon_fixed_RemoveAll: "canon_fixed h \<Longrightarrow> canon_fixed (RemoveAll h key)"
  by (auto simp: canon_fixed_def RemoveAll_def Let_def RemoveAll_loop_filter)

lemma Normalize_loop_key:
  "kv \<in> set (Normalize_loop hs) \<Longrightarrow> \<exists>kv' \<in> set hs. Key kv = Key kv'"
  by (induction hs) auto

lemma canon_fixed_Normalize: "canon_fixed h \<Longrightarrow> canon_fixed (Normalize h)"
  by (auto simp: canon_fixed_def Normalize_def dest!: Normalize_loop_key)

lemma canon_fixed_ReadHeader_loop: "canon_fixed m \<Longrightarrow> canon_fixed (fst (ReadHeader_loop m r))"
proof (induction r arbitrary: m)
  case Nil
  then show ?case by simp
next
  case (Cons a r)
  obtain kv err where a: "a = (kv, err)" by (cases a)
  show ?case
    using Cons.prems Cons.IH canon_fixed_Add
    by (auto simp: a Let_def)
qed

lemma canon_fixed_start: "canon_fixed (start src)"
  using canon_fixed_ReadHeader_loop [of "\<lparr>Headers = []\<rparr>"]
  by (auto simp: start_def ReadHeader_def canon_fixed_def split: option.splits)

lemma canon_fixed_apply_op: "canon_fixed h \<Longrightarrow> canon_fixed (apply_op x h p)"
  by (cases p) (simp_all add: canon_fixed_Add canon_fixed_Set canon_fixed_RemoveAll canon_fixed_Normalize)

lemma canon_fixed_foldl: "canon_fixed h \<Longrightarrow> canon_fixed (foldl (apply_op x) h ops)"
  by (induction ops arbitrary: h) (simp_all add: canon_fixed_apply_op)

text \<open>
  Claim C8, as amended. After every sequence of \<open>ReadHeader\<close>, \<open>Add\<close>, \<open>Set\<close>,
  \<open>RemoveAll\<close> and \<open>Normalize\<close>, every stored key is a value of
  \<open>CanonicalMIMEHeaderKey\<close>, which leaves it unchanged, and a stored key made only of
  bytes that are valid in a header field name is in canonical form. A key with a space
  or another invalid byte need not be.
\<close>

theorem stored_keys_canonicalized:
  "kv \<in> set (Headers (run x src ops)) \<Longrightarrow>
   CanonicalMIMEHeaderKey (Key kv) = Key kv \<and>
   (if list_all validHeaderFieldByte (Key kv) then is_canonical (Key kv) else True)"
proof -
  assume "kv \<in> set (Headers (run x src ops))"
  moreover have "canon_fixed (run x src ops)"
    unfolding run_def by (rule canon_fixed_foldl [OF canon_fixed_start])
  ultimately have f: "CanonicalMIMEHeaderKey (Key kv) = Key kv"
    by (simp add: canon_fixed_def)
  then have "list_all validHeaderFieldByte (Key kv) \<Longrightarrow> canonical_form (Key kv) = Key kv"
    by (simp add: CanonicalMIMEHeaderKey_def canon_loop_canonical_form)
  with f show ?thesis by (simp add: is_canonical_def)
qed

theorem stored_keys_canonicalized_witness:
  "\<forall>x. \<lparr>Key = ''Content-Type'', Value = ''text/plain''\<rparr>
        \<in> set (Headers (run x None [OpAdd ''content-type'' ''text/plain'', OpNormalize]))
     \<and> CanonicalMIMEHeaderKey ''Content-Type'' = ''Content-Type''
     \<and> is_canonical ''Content-Type''"
proof
  fix x
  have m: "\<lparr>Key = ''Content-Type'', Value = ''text/plain''\<rparr>
        \<in> set (Headers (run x None [OpAdd ''content-type'' ''text/plain'', OpNormalize]))"
    by code_simp
  have v: "list_all validHeaderFieldByte ''Content-Type''"
    by code_simp
  from m v stored_keys_canonicalized [OF m]
  show "\<lparr>Key = ''Content-Type'', Value = ''text/plain''\<rparr>
        \<in> set (Headers (run x None [OpAdd ''content-type'' ''text/plain'', OpNormalize]))
     \<and> CanonicalMIMEHeaderKey ''Content-Type'' = ''Content-Type''
     \<and> is_canonical ''Content-Type''"
    by simp
qed

text \<open>
  Claim C8 as stated fails: \<open>ReadHeader\<close> stores the key \<open>Audio Mode\<close> of the line
  \<open>Audio Mode : None\<close> as it is (header_test.go expects so), and \<open>Add\<close> stores
  \<open>audio mode\<close> as it is; neither is in canonical form.
\<close>

theorem stored_keys_counterexample:
  "Headers (fst (ReadHeader [(''Audio Mode : None'', None), ([], None)]))
     = [\<lparr>Key = ''Audio Mode'', Value = ''None''\<rparr>]
   \<and> \<not> is_canonical ''Audio Mode''
   \<and> Headers (Add \<lparr>Headers = []\<rparr> ''audio mode'' ''None'') = [\<lparr>Key = ''audio mode'', Value = ''None''\<rparr>]
   \<and> \<not> is_canonical ''audio mode''"
  by code_simp

subsection \<open>The validator of message identifiers\<close>

text \<open>
  Claim C6 says that the validator accepts a \<open>MessageID\<close> if and only if it matches the
  rule of the specification. The code differs. \<open>messageIdRe\<close> has no \<open>$\<close>, so anything may
  follow the \<open>>\<close>; its last group has no \<open>*\<close>, so the part after \<open>@\<close> needs a dot; and
  \<open>+-/\<close> in its class is a range that holds the comma and the dot, so dots need not be
  single. The code is evaluated here where the two differ: \<open><a@b>\<close> is rejected,
  and text after the \<open>>\<close> and two dots in a row are accepted.
\<close>

theorem validMessageId_differs:
  "validMessageId ''<a@b>'' = Some (InvalidMessageID ''<a@b>'') \<and> is_MessageID_spec ''<a@b>''
   \<and> validMessageId ''<a@b.c>junk'' = None \<and> \<not> is_MessageID_spec ''<a@b.c>junk''
   \<and> validMessageId ''<a..b@c.d>'' = None \<and> \<not> is_MessageID_spec ''<a..b@c.d>''
   \<and> validMessageId ''<a@b.c.d>'' = None \<and> is_MessageID_spec ''<a@b.c.d>''
   \<and> (\<forall>x. checkHeader x HeaderTypeMessageID ''<a@b>'' = Some (InvalidMessageID ''<a@b>''))"
  by (intro conjI allI; code_simp)

subsection \<open>Normalize on a vertical tab\<close>

text \<open>
  Claim C7 says that \<open>Normalize\<close> replaces every run of white space, vertical tab
  included, by one space. Go's \<open>\s\<close> does not hold the vertical tab, so the code keeps a
  vertical tab inside a value; the example of the specification, which has none, comes
  out as stated.
\<close>

theorem Normalize_keeps_vertical_tab:
  "Normalize \<lparr>Headers = [\<lparr>Key = ''FOO'', Value = ''a'' @ [VT] @ ''b''\<rparr>]\<rparr>
     = \<lparr>Headers = [\<lparr>Key = ''FOO'', Value = ''a'' @ [VT] @ ''b''\<rparr>]\<rparr>
   \<and> Normalize \<lparr>Headers = [\<lparr>Key = ''FOO'', Value = ''  one'' @ [TAB] @ ''two   three'' @ [LF]
         @ ''  four'' @ [TAB] @ '' five'' @ [TAB, LF] @ ''six'' @ [CR, LF] @ ''seven'' @ [LF]\<rparr>]\<rparr>
     = \<lparr>Headers = [\<lparr>Key = ''FOO'', Value = ''one two three four five six seven''\<rparr>]\<rparr>"
  by code_simp

subsection \<open>Continuation lines of writeHeader\<close>

text \<open>
  Claim C2 says that every line after the first begins with one space or tab, also on
  the simple path and when the value holds CR or LF. The code is evaluated at two values
  with an embedded CRLF. On the simple path \<open>a CRLF b\<close> is written as it is, so the line
  \<open>b\<close> begins with no white space. On the folding path the line after the tab that
  pads an embedded break is wrapped again when the next token is long, and the token
  starts a line of its own with no white space before it.
\<close>

theorem writeHeader_bare_continuation:
  "\<forall>x opts. writeHeader x [] HeaderTypeUnstructured ''Subject'' (''a'' @ CRLF @ ''b'') opts
       = (''Subject: a'' @ CRLF @ ''b'' @ CRLF, None)
     \<and> writeHeader x [] HeaderTypeUnstructured ''Subject''
         (''x'' @ CRLF @ replicate 78 CHR ''A'' @ '' b'') opts
       = (''Subject: x'' @ CRLF @ [TAB] @ CRLF @ replicate 78 CHR ''A'' @ CRLF @ '' b'' @ CRLF, None)"
  by (intro allI conjI; code_simp)

subsection \<open>Normalize is idempotent\<close>

lemma match_len_Nil: "match_len qs [] = 0"
  by (induction qs) (auto elim: has_prefix.elims)

lemma has_prefix_append: "has_prefix q s \<Longrightarrow> has_prefix q (s @ t)"
  by (induction q s rule: has_prefix.induct) auto

lemma match_len_append: "match_len qs s \<noteq> 0 \<Longrightarrow> match_len qs (s @ t) \<noteq> 0"
proof (induction qs)
  case Nil
  then show ?case by simp
next
  case (Cons q qs)
  show ?case
  proof (cases "has_prefix q s")
    case True
    with Cons.prems show ?thesis by (simp add: has_prefix_append)
  next
    case False
    then have "q \<noteq> []" by (cases q) auto
    with False Cons show ?thesis by auto
  qed
qed

lemma match_len_0_iff:
  "\<forall>q \<in> set qs. q \<noteq> [] \<Longrightarrow> match_len qs s = 0 \<longleftrightarrow> (\<forall>q \<in> set qs. \<not> has_prefix q s)"
  by (induction qs) auto

lemma trim_left_no_match: "match_len qs s = 0 \<Longrightarrow> trim_left qs s = s"
  by (subst trim_left.simps) simp

lemma trim_left_is_drop: "\<exists>k. trim_left qs s = drop k s"
proof (induction qs s rule: trim_left.induct)
  case (1 qs s)
  show ?case
  proof (cases "match_len qs s = 0 \<or> s = []")
    case True
    then have "trim_left qs s = drop 0 s" by (subst trim_left.simps) auto
    then show ?thesis by blast
  next
    case False
    with 1 obtain k where "trim_left qs (drop (match_len qs s) s) = drop k (drop (match_len qs s) s)"
      by auto
    with False have "trim_left qs s = drop (match_len qs s + k) s"
      by (subst trim_left.simps) (simp add: Let_def add.commute)
    then show ?thesis by blast
  qed
qed

lemma trim_left_result: "match_len qs (trim_left qs s) = 0"
proof (induction qs s rule: trim_left.induct)
  case (1 qs s)
  show ?case
  proof (cases "match_len qs s = 0 \<or> s = []")
    case True
    then show ?thesis by (subst trim_left.simps) (auto simp: match_len_Nil)
  next
    case False
    with 1 show ?thesis by (subst trim_left.simps) (simp add: Let_def)
  qed
qed

lemma trim_left_idem: "trim_left qs (trim_left qs s) = trim_left qs s"
  by (simp add: trim_left_no_match trim_left_result)

lemma trim_left_same_length: "length (trim_left qs s) = length s \<Longrightarrow> match_len qs s = 0 \<or> s = []"
proof (rule ccontr)
  assume l: "length (trim_left qs s) = length s" and n: "\<not> (match_len qs s = 0 \<or> s = [])"
  then have "trim_left qs s = trim_left qs (drop (match_len qs s) s)"
    by (subst trim_left.simps) (simp add: Let_def)
  moreover have "length (trim_left qs (drop (match_len qs s) s)) \<le> length (drop (match_len qs s) s)"
    by (rule length_trim_left)
  moreover from n have "length (drop (match_len qs s) s) < length s" by simp
  ultimately show False using l by simp
qed

lemma re_space_SP: "match_len re_space (SP # s) = 1"
  by (simp add: re_space_def)

lemma re_space_seqs: "\<forall>q \<in> set re_space. q \<noteq> [] \<and> SP \<notin> set (tl q)"
  by (simp add: re_space_def)

lemma length_ReplaceAllSpace: "length (ReplaceAllSpace s) \<le> length s"
proof (induction s rule: ReplaceAllSpace.induct)
  case 1
  show ?case by simp
next
  case (2 c cs)
  show ?case
  proof (cases "match_len re_space (c # cs) = 0")
    case True
    with 2 show ?thesis by (subst ReplaceAllSpace.simps) (simp add: Let_def)
  next
    case False
    let ?r = "trim_left re_space (drop (match_len re_space (c # cs)) (c # cs))"
    from 2 False have "length (ReplaceAllSpace ?r) \<le> length ?r" by simp
    moreover have "length ?r \<le> length (drop (match_len re_space (c # cs)) (c # cs))"
      by (rule length_trim_left)
    moreover from False have "length (drop (match_len re_space (c # cs)) (c # cs)) \<le> length cs"
      by simp
    ultimately show ?thesis
      using False by (subst ReplaceAllSpace.simps) (simp add: Let_def)
  qed
qed

lemma fixed_Cons_iff:
  "fixed (x # s) \<longleftrightarrow>
     fixed s \<and> (match_len re_space (x # s) = 0 \<or> (x = SP \<and> match_len re_space s = 0))"
proof (cases "match_len re_space (x # s) = 0")
  case True
  then show ?thesis
    unfolding fixed_def by (subst ReplaceAllSpace.simps) (simp add: Let_def)
next
  case False
  let ?n = "match_len re_space (x # s)"
  let ?r = "trim_left re_space (drop ?n (x # s))"
  have eq: "ReplaceAllSpace (x # s) = SP # ReplaceAllSpace ?r"
    using False by (subst ReplaceAllSpace.simps) (simp add: Let_def)
  show ?thesis
  proof
    assume f: "fixed (x # s)"
    with eq have x: "x = SP" and r: "ReplaceAllSpace ?r = s"
      by (simp_all add: fixed_def)
    from x have n: "?n = 1" by (simp add: re_space_SP)
    with r have r': "ReplaceAllSpace (trim_left re_space s) = s" by simp
    have "length s \<le> length (trim_left re_space s)"
      using length_ReplaceAllSpace [of "trim_left re_space s"] r' by simp
    with length_trim_left [of re_space s] have "length (trim_left re_space s) = length s"
      by simp
    then have m: "match_len re_space s = 0"
      using trim_left_same_length [of re_space s] by (auto simp: match_len_Nil)
    with r' have "fixed s" by (simp add: fixed_def trim_left_no_match)
    with x m show "fixed s \<and> (?n = 0 \<or> (x = SP \<and> match_len re_space s = 0))"
      by simp
  next
    assume "fixed s \<and> (?n = 0 \<or> (x = SP \<and> match_len re_space s = 0))"
    with False have s: "fixed s" and x: "x = SP" and m: "match_len re_space s = 0"
      by simp_all
    from x have "?n = 1" by (simp add: re_space_SP)
    with eq m s show "fixed (x # s)"
      by (simp add: fixed_def x trim_left_no_match)
  qed
qed

lemma fixed_Nil: "fixed []"
  by (simp add: fixed_def)

lemma fixed_drop: "fixed s \<Longrightarrow> fixed (drop k s)"
proof (induction s arbitrary: k)
  case Nil
  then show ?case by simp
next
  case (Cons x s)
  then show ?case by (cases k) (auto simp: fixed_Cons_iff)
qed

lemma fixed_prefix: "fixed (s @ t) \<Longrightarrow> fixed s"
proof (induction s)
  case Nil
  show ?case by (rule fixed_Nil)
next
  case (Cons x s)
  from Cons.prems have f: "fixed (s @ t)"
    and m: "match_len re_space (x # s @ t) = 0 \<or> (x = SP \<and> match_len re_space (s @ t) = 0)"
    by (simp_all add: fixed_Cons_iff)
  have a: "match_len re_space (x # s) = 0" if "match_len re_space (x # s @ t) = 0"
    using that match_len_append [of re_space "x # s" t] by auto
  have b: "match_len re_space s = 0" if "match_len re_space (s @ t) = 0"
    using that match_len_append [of re_space s t] by auto
  from m a b have "match_len re_space (x # s) = 0 \<or> (x = SP \<and> match_len re_space s = 0)"
    by blast
  with Cons.IH [OF f] show ?case by (simp add: fixed_Cons_iff)
qed

lemma fixed_take: "fixed s \<Longrightarrow> fixed (take k s)"
  using fixed_prefix [of "take k s" "drop k s"] by simp

lemma has_prefix_ReplaceAllSpace:
  "SP \<notin> set p \<Longrightarrow> has_prefix p (ReplaceAllSpace ys) \<Longrightarrow> has_prefix p ys"
proof (induction p arbitrary: ys)
  case Nil
  show ?case by simp
next
  case (Cons b p)
  show ?case
  proof (cases ys)
    case Nil
    with Cons.prems show ?thesis by simp
  next
    case (Cons y ys')
    show ?thesis
    proof (cases "match_len re_space (y # ys') = 0")
      case True
      then have "ReplaceAllSpace ys = y # ReplaceAllSpace ys'"
        unfolding Cons by (subst ReplaceAllSpace.simps) (simp add: Let_def)
      with Cons.prems Cons.IH [of ys'] show ?thesis by (simp add: Cons)
    next
      case False
      then have "hd (ReplaceAllSpace ys) = SP"
        unfolding Cons by (subst ReplaceAllSpace.simps) (simp add: Let_def)
      moreover from Cons.prems(2) have "hd (ReplaceAllSpace ys) = b"
        by (cases "ReplaceAllSpace ys") auto
      ultimately show ?thesis using Cons.prems(1) by simp
    qed
  qed
qed

lemma no_match_Cons_ReplaceAllSpace:
  assumes "match_len re_space (c # cs) = 0"
  shows "match_len re_space (c # ReplaceAllSpace cs) = 0"
proof -
  have ne: "\<forall>q \<in> set re_space. q \<noteq> []" using re_space_seqs by blast
  have "\<not> has_prefix q (c # ReplaceAllSpace cs)" if q: "q \<in> set re_space" for q
  proof
    assume h: "has_prefix q (c # ReplaceAllSpace cs)"
    from q re_space_seqs have "q \<noteq> []" and "SP \<notin> set (tl q)"
      by blast+
    then obtain b p where qq: "q = b # p" and sp: "SP \<notin> set p"
      by (cases q) auto
    from h qq have "b = c" "has_prefix p (ReplaceAllSpace cs)" by simp_all
    with sp have "has_prefix q (c # cs)"
      by (simp add: qq has_prefix_ReplaceAllSpace)
    with q assms ne show False by (simp add: match_len_0_iff)
  qed
  with ne show ?thesis by (simp add: match_len_0_iff)
qed

lemma no_match_ReplaceAllSpace:
  "match_len re_space r = 0 \<Longrightarrow> match_len re_space (ReplaceAllSpace r) = 0"
proof (cases r)
  case Nil
  then show ?thesis by (simp add: match_len_Nil)
next
  case (Cons c cs)
  assume m: "match_len re_space r = 0"
  then have "ReplaceAllSpace r = c # ReplaceAllSpace cs"
    unfolding Cons by (subst ReplaceAllSpace.simps) (simp add: Let_def)
  with m no_match_Cons_ReplaceAllSpace [of c cs] show ?thesis by (simp add: Cons)
qed

lemma fixed_ReplaceAllSpace: "fixed (ReplaceAllSpace s)"
proof (induction s rule: ReplaceAllSpace.induct)
  case 1
  show ?case by (simp add: fixed_Nil)
next
  case (2 c cs)
  show ?case
  proof (cases "match_len re_space (c # cs) = 0")
    case True
    then have "ReplaceAllSpace (c # cs) = c # ReplaceAllSpace cs"
      by (subst ReplaceAllSpace.simps) (simp add: Let_def)
    with 2 True no_match_Cons_ReplaceAllSpace [OF True] show ?thesis
      by (simp add: fixed_Cons_iff)
  next
    case False
    let ?r = "trim_left re_space (drop (match_len re_space (c # cs)) (c # cs))"
    have eq: "ReplaceAllSpace (c # cs) = SP # ReplaceAllSpace ?r"
      using False by (subst ReplaceAllSpace.simps) (simp add: Let_def)
    have "match_len re_space (ReplaceAllSpace ?r) = 0"
      by (rule no_match_ReplaceAllSpace) (rule trim_left_result)
    moreover from 2 False have "fixed (ReplaceAllSpace ?r)" by simp
    ultimately show ?thesis by (simp add: eq fixed_Cons_iff)
  qed
qed

lemma trim_right_is_take: "\<exists>k. trim_right qs s = take k s"
proof -
  obtain k where "trim_left (map rev qs) (rev s) = drop k (rev s)"
    using trim_left_is_drop by blast
  then have "trim_right qs s = take (length s - k) s"
    by (simp add: trim_right_def rev_drop)
  then show ?thesis by blast
qed

lemma trim_right_idem: "trim_right qs (trim_right qs s) = trim_right qs s"
  by (simp add: trim_right_def trim_left_idem)

lemma match_len_take: "match_len qs s = 0 \<Longrightarrow> match_len qs (take k s) = 0"
  using match_len_append [of qs "take k s" "drop k s"] by auto

lemma TrimSpace_idem: "TrimSpace (TrimSpace s) = TrimSpace s"
proof -
  let ?a = "trim_left unicode_space s"
  let ?b = "trim_right unicode_space ?a"
  obtain k where k: "?b = take k ?a" using trim_right_is_take by blast
  have "match_len unicode_space ?b = 0"
    unfolding k by (rule match_len_take) (rule trim_left_result)
  then have "trim_left unicode_space ?b = ?b" by (rule trim_left_no_match)
  then show ?thesis by (simp add: TrimSpace_def trim_right_idem)
qed

lemma fixed_TrimSpace: "fixed s \<Longrightarrow> fixed (TrimSpace s)"
proof -
  assume f: "fixed s"
  obtain j where j: "trim_left unicode_space s = drop j s" using trim_left_is_drop by blast
  obtain k where k: "trim_right unicode_space (drop j s) = take k (drop j s)"
    using trim_right_is_take by blast
  from f show ?thesis
    by (simp add: TrimSpace_def j k fixed_take fixed_drop)
qed

lemma normalize_value_idem:
  "TrimSpace (ReplaceAllSpace (TrimSpace (ReplaceAllSpace v))) = TrimSpace (ReplaceAllSpace v)"
proof -
  have "fixed (TrimSpace (ReplaceAllSpace v))"
    by (rule fixed_TrimSpace) (rule fixed_ReplaceAllSpace)
  then show ?thesis by (simp add: fixed_def TrimSpace_idem)
qed

lemma Normalize_loop_idem: "Normalize_loop (Normalize_loop hs) = Normalize_loop hs"
  by (induction hs) (simp_all add: normalize_value_idem)

text \<open>
  Claim C10. \<open>Normalize\<close> is idempotent: calling it twice leaves the same entries as
  calling it once.
\<close>

theorem Normalize_idempotent: "Normalize (Normalize h) = Normalize h"
  by (simp add: Normalize_def Normalize_loop_idem)

theorem Normalize_idempotent_witness:
  "Normalize (Normalize \<lparr>Headers = [\<lparr>Key = ''FOO'', Value = '' a'' @ [TAB, VT] @ ''  b '' @ [VT]\<rparr>]\<rparr>)
     = \<lparr>Headers = [\<lparr>Key = ''FOO'', Value = ''a '' @ [VT] @ '' b''\<rparr>]\<rparr>"
proof -
  have "Normalize \<lparr>Headers = [\<lparr>Key = ''FOO'', Value = '' a'' @ [TAB, VT] @ ''  b '' @ [VT]\<rparr>]\<rparr>
     = \<lparr>Headers = [\<lparr>Key = ''FOO'', Value = ''a '' @ [VT] @ '' b''\<rparr>]\<rparr>"
    by code_simp
  then show ?thesis
    using Normalize_idempotent [of "\<lparr>Headers = [\<lparr>Key = ''FOO'', Value = '' a'' @ [TAB, VT] @ ''  b '' @ [VT]\<rparr>]\<rparr>"]
    by simp
qed

subsection \<open>Line lengths of writeHeader\<close>

lemma fold_loop_end:
  "\<not> i < length val \<Longrightarrow> fold_loop val i q ts col w = (None, ts, col, w)"
  by (subst fold_loop.simps) simp

lemma fold_loop_quote:
  "i < length val \<Longrightarrow> val ! i = CHR 0x22 \<Longrightarrow>
   fold_loop val i q ts col w = fold_loop val (i + 1) (\<not> q) ts col w"
  by (subst fold_loop.simps) simp

lemma fold_loop_in_string:
  "i < length val \<Longrightarrow> val ! i \<noteq> CHR 0x22 \<Longrightarrow> q \<Longrightarrow> val ! i \<noteq> CR \<Longrightarrow> val ! i \<noteq> LF \<Longrightarrow>
   fold_loop val i q ts col w = fold_loop val (i + 1) q ts col w"
  by (subst fold_loop.simps) simp

lemma fold_loop_wsp:
  "i < length val \<Longrightarrow> is_wsp (val ! i) \<Longrightarrow> \<not> q \<Longrightarrow>
   fold_loop val i q ts col w =
     (if col + length (slice val ts i) > 78 \<and> ts \<noteq> 0
      then fold_loop val (i + 1) False i (length (slice val ts i)) (w @ CRLF @ slice val ts i)
      else fold_loop val (i + 1) False i (col + length (slice val ts i)) (w @ slice val ts i))"
proof -
  assume i: "i < length val" and v: "is_wsp (val ! i)" and q: "\<not> q"
  from v have a: "val ! i \<noteq> CHR 0x22" "val ! i \<noteq> CR" "val ! i \<noteq> LF"
    and b: "val ! i = SP \<or> val ! i = TAB \<or> val ! i = VT \<or> val ! i = FF"
    by (auto simp: is_wsp_def)
  show ?thesis
    by (subst fold_loop.simps) (simp add: i a b q Let_def)
qed

lemma fold_loop_wsp_wrap:
  "i < length val \<Longrightarrow> is_wsp (val ! i) \<Longrightarrow> \<not> q \<Longrightarrow>
   col + length (slice val ts i) > 78 \<Longrightarrow> ts \<noteq> 0 \<Longrightarrow>
   fold_loop val i q ts col w =
     fold_loop val (i + 1) False i (length (slice val ts i)) (w @ CRLF @ slice val ts i)"
  by (simp add: fold_loop_wsp)

lemma fold_loop_wsp_keep:
  "i < length val \<Longrightarrow> is_wsp (val ! i) \<Longrightarrow> \<not> q \<Longrightarrow>
   ts = 0 \<or> col + length (slice val ts i) \<le> 78 \<Longrightarrow>
   fold_loop val i q ts col w =
     fold_loop val (i + 1) False i (col + length (slice val ts i)) (w @ slice val ts i)"
  by (auto simp: fold_loop_wsp)

lemma fold_loop_other:
  "i < length val \<Longrightarrow> val ! i \<noteq> CHR 0x22 \<Longrightarrow> \<not> q \<Longrightarrow> \<not> is_wsp (val ! i) \<Longrightarrow>
   val ! i \<noteq> CR \<Longrightarrow> val ! i \<noteq> LF \<Longrightarrow>
   fold_loop val i q ts col w = fold_loop val (i + 1) q ts col w"
  by (subst fold_loop.simps) (simp add: is_wsp_def)

lemma scan_snoc:
  "scan q (t @ [c]) =
     (case scan q t of
        None \<Rightarrow> None
      | Some q' \<Rightarrow>
          if c = CHR 0x22 then Some (\<not> q') else if q' then Some q'
          else if is_wsp c then None else Some q')"
  by (induction t arbitrary: q) auto

lemma tok_state_snoc:
  "tok_state t = Some q \<Longrightarrow>
   tok_state (t @ [c]) =
     (if c = CHR 0x22 then Some (\<not> q) else if q then Some q
      else if is_wsp c \<and> t \<noteq> [] then None else Some q)"
  by (cases t) (auto simp: tok_state_def scan_snoc)

lemma scan_wsp_head: "is_wsp c \<Longrightarrow> scan False (c # cs) = None"
  by (auto simp: is_wsp_def)

lemma tok_state_one_word: "tok_state t = Some q \<Longrightarrow> one_word t"
proof (cases t)
  case Nil
  then show ?thesis by (simp add: one_word_def)
next
  case (Cons c cs)
  assume t: "tok_state t = Some q"
  show ?thesis
  proof (cases "is_wsp c")
    case True
    then have q: "c \<noteq> CHR 0x22" by (auto simp: is_wsp_def)
    with t Cons have s: "scan False cs = Some q" by (simp add: tok_state_def)
    have "dropWhile is_wsp cs = cs"
    proof (cases cs)
      case Nil
      then show ?thesis by simp
    next
      case (Cons a list)
      with s have "\<not> is_wsp a"
        by (metis scan_wsp_head option.distinct(1))
      then show ?thesis by (simp add: Cons)
    qed
    with True s show ?thesis by (simp add: one_word_def Cons)
  next
    case False
    with t show ?thesis by (auto simp: one_word_def Cons tok_state_def)
  qed
qed

lemma scan_count:
  "scan q0 s = Some q \<Longrightarrow> q = (q0 \<noteq> odd (count_list s (CHR 0x22)))"
  by (induction s arbitrary: q0) (auto split: if_splits)

lemma tok_state_balanced: "tok_state t = Some False \<Longrightarrow> balanced t"
  by (cases t) (auto simp: tok_state_def balanced_def dest!: scan_count split: if_splits)

lemma balanced_append: "balanced a \<Longrightarrow> balanced b \<Longrightarrow> balanced (a @ b)"
  by (simp add: balanced_def)

lemma one_word_wsp_Cons: "is_wsp c \<Longrightarrow> one_word (c # l) = one_word l"
  by (simp add: one_word_def)

lemma slice_snoc: "ts \<le> i \<Longrightarrow> i < length val \<Longrightarrow> slice val ts (Suc i) = slice val ts i @ [val ! i]"
  by (simp add: slice_def Suc_diff_le take_Suc_conv_app_nth)

lemma slice_self: "slice val i i = []"
  by (simp add: slice_def)

lemma take_slice: "ts \<le> i \<Longrightarrow> take ts val @ slice val ts i = take i val"
proof -
  assume a: "ts \<le> i"
  have "take i val = take ts (take i val) @ drop ts (take i val)"
    by (simp only: append_take_drop_id)
  also from a have "take ts (take i val) = take ts val"
    by (simp add: min_def)
  also have "drop ts (take i val) = slice val ts i"
    by (simp add: slice_def drop_take)
  finally show ?thesis by simp
qed

lemma fold_inv_char:
  assumes "fold_inv val c0 P i q ts col w" "i < length val"
    and "tok_state (slice val ts i @ [val ! i]) = Some q'"
  shows "fold_inv val c0 P (Suc i) q' ts col w"
proof -
  from assms(1) have "ts \<le> i" by (simp add: fold_inv_def)
  with assms(2) have "slice val ts (Suc i) = slice val ts i @ [val ! i]"
    by (simp add: slice_snoc)
  with assms show ?thesis
    unfolding fold_inv_def by (elim conjE exE, intro conjI exI) simp_all
qed


lemma terminated_snoc: "terminated (ls @ [l]) = terminated ls @ l @ CRLF"
  by (simp add: terminated_def)

lemma lines_ok_wrap:
  assumes "lines_ok c0 earlier cur" "cont_ok tok" "concat earlier @ cur \<noteq> []"
  shows "lines_ok c0 (earlier @ [cur]) tok"
  using assms by (cases earlier) (simp_all add: lines_ok_def)

lemma lines_ok_empty:
  assumes "lines_ok c0 earlier cur" "concat earlier @ cur = []"
  shows "earlier = [] \<and> cur = []"
  using assms by (cases earlier) (auto simp: lines_ok_def cont_ok_def)

lemma lines_ok_append:
  assumes "lines_ok c0 earlier cur" "(if earlier = [] then c0 else 0) + length cur + length tok \<le> 78"
  shows "lines_ok c0 earlier (cur @ tok)"
  using assms by (cases earlier) (auto simp: lines_ok_def cont_ok_def line_ok_def)

lemma lines_ok_first: "one_word tok \<Longrightarrow> lines_ok c0 [] tok"
  by (simp add: lines_ok_def line_ok_def)

lemma fold_inv_wsp_wrap:
  assumes inv: "fold_inv val c0 P i False ts col w" and i: "i < length val"
    and v: "is_wsp (val ! i)" and nz: "ts \<noteq> 0"
  shows "fold_inv val c0 P (Suc i) False i (length (slice val ts i)) (w @ CRLF @ slice val ts i)"
proof -
  let ?tok = "slice val ts i"
  from inv have ts: "ts \<le> i" and c0: "2 \<le> c0" and st: "tok_state ?tok = Some False"
    and tsw: "ts \<noteq> 0 \<longrightarrow> ts < i \<and> is_wsp (val ! ts)"
    by (simp_all add: fold_inv_def)
  from inv obtain earlier cur where w: "w = P @ terminated earlier @ cur"
    and cc: "concat earlier @ cur = take ts val"
    and ok: "lines_ok c0 earlier cur"
    and be: "list_all balanced earlier" and bc: "balanced cur"
    unfolding fold_inv_def by blast
  from st have ow: "one_word ?tok" by (rule tok_state_one_word)
  from st have bt: "balanced ?tok" by (rule tok_state_balanced)
  from v have nq: "val ! i \<noteq> CHR 0x22" by (auto simp: is_wsp_def)
  have pend: "tok_state (slice val i (Suc i)) = Some False"
    using i nq by (simp add: slice_snoc slice_self tok_state_def)
  have tk: "take ts val @ ?tok = take i val" using ts by (rule take_slice)
  from nz tsw have t: "ts < i" "is_wsp (val ! ts)" by simp_all
  with i have "?tok \<noteq> []" "hd ?tok = val ! ts"
    by (simp_all add: slice_def hd_drop_conv_nth)
  with t ow have ct: "cont_ok ?tok" by (simp add: cont_ok_def line_ok_def)
  from nz t i have "take ts val \<noteq> []" by auto
  with cc have ne: "concat earlier @ cur \<noteq> []" by simp
  have "w @ CRLF @ ?tok = P @ terminated (earlier @ [cur]) @ ?tok"
    by (simp add: w terminated_snoc)
  moreover have "concat (earlier @ [cur]) @ ?tok = take i val"
    using cc tk by simp
  moreover have "length ?tok = (if earlier @ [cur] = [] then c0 else 0) + length ?tok"
    by simp
  moreover have "lines_ok c0 (earlier @ [cur]) ?tok"
    using ok ct ne by (rule lines_ok_wrap)
  moreover have "list_all balanced (earlier @ [cur])"
    using be bc by simp
  ultimately have "\<exists>earlier' cur'. w @ CRLF @ ?tok = P @ terminated earlier' @ cur' \<and>
      concat earlier' @ cur' = take i val \<and>
      length ?tok = (if earlier' = [] then c0 else 0) + length cur' \<and> lines_ok c0 earlier' cur' \<and>
      list_all balanced earlier' \<and> balanced cur'"
    using bt by blast
  with i c0 pend v show ?thesis
    unfolding fold_inv_def by (intro conjI) simp_all
qed

lemma fold_inv_wsp_keep:
  assumes inv: "fold_inv val c0 P i False ts col w" and i: "i < length val"
    and v: "is_wsp (val ! i)" and fit: "ts = 0 \<or> col + length (slice val ts i) \<le> 78"
  shows "fold_inv val c0 P (Suc i) False i (col + length (slice val ts i)) (w @ slice val ts i)"
proof -
  let ?tok = "slice val ts i"
  from inv have ts: "ts \<le> i" and c0: "2 \<le> c0" and st: "tok_state ?tok = Some False"
    by (simp_all add: fold_inv_def)
  from inv obtain earlier cur where w: "w = P @ terminated earlier @ cur"
    and cc: "concat earlier @ cur = take ts val"
    and col: "col = (if earlier = [] then c0 else 0) + length cur"
    and ok: "lines_ok c0 earlier cur"
    and be: "list_all balanced earlier" and bc: "balanced cur"
    unfolding fold_inv_def by blast
  from st have ow: "one_word ?tok" by (rule tok_state_one_word)
  from st have bt: "balanced ?tok" by (rule tok_state_balanced)
  from v have nq: "val ! i \<noteq> CHR 0x22" by (auto simp: is_wsp_def)
  have pend: "tok_state (slice val i (Suc i)) = Some False"
    using i nq by (simp add: slice_snoc slice_self tok_state_def)
  have tk: "take ts val @ ?tok = take i val" using ts by (rule take_slice)
  have "lines_ok c0 earlier (cur @ ?tok)"
  proof (cases "ts = 0")
    case True
    with cc have "concat earlier @ cur = []" by simp
    with ok have "earlier = [] \<and> cur = []" by (rule lines_ok_empty)
    with ow show ?thesis by (simp add: lines_ok_first)
  next
    case False
    with fit have "col + length ?tok \<le> 78" by simp
    with ok col show ?thesis by (simp add: lines_ok_append)
  qed
  moreover have "w @ ?tok = P @ terminated earlier @ cur @ ?tok"
    by (simp add: w)
  moreover have "concat earlier @ cur @ ?tok = take i val"
    by (metis append.assoc cc tk)
  moreover have "col + length ?tok = (if earlier = [] then c0 else 0) + length (cur @ ?tok)"
    by (simp add: col)
  moreover have "balanced (cur @ ?tok)"
    using bc bt by (rule balanced_append)
  ultimately have "\<exists>earlier' cur'. w @ ?tok = P @ terminated earlier' @ cur' \<and>
      concat earlier' @ cur' = take i val \<and>
      col + length ?tok = (if earlier' = [] then c0 else 0) + length cur' \<and> lines_ok c0 earlier' cur' \<and>
      list_all balanced earlier' \<and> balanced cur'"
    using be by blast
  with i c0 pend v show ?thesis
    unfolding fold_inv_def by (intro conjI) simp_all
qed

lemma fold_loop_inv:
  assumes cr: "CR \<notin> set val" and lf: "LF \<notin> set val"
  shows "k = length val - i \<Longrightarrow> fold_inv val c0 P i q ts col w \<Longrightarrow>
     \<exists>q' ts' col' w'. fold_loop val i q ts col w = (None, ts', col', w') \<and>
        fold_inv val c0 P (length val) q' ts' col' w'"
proof (induction k arbitrary: i q ts col w)
  case 0
  then have "i = length val" by (simp add: fold_inv_def)
  with 0 show ?case by (auto simp: fold_loop_end)
next
  case (Suc k)
  then have i: "i < length val" and k: "k = length val - Suc i" by simp_all
  from i cr lf have ncr: "val ! i \<noteq> CR" and nlf: "val ! i \<noteq> LF"
    by (metis nth_mem)+
  from Suc.prems(2) have ts: "ts \<le> i" and st: "tok_state (slice val ts i) = Some q"
    by (simp_all add: fold_inv_def)
  show ?case
  proof (cases "val ! i = CHR 0x22")
    case True
    have "tok_state (slice val ts i @ [val ! i]) = Some (\<not> q)"
      using st True by (simp add: tok_state_snoc)
    with Suc.prems(2) i have "fold_inv val c0 P (Suc i) (\<not> q) ts col w"
      by (rule fold_inv_char)
    from Suc.IH [OF k this] show ?thesis
      using i True by (simp add: fold_loop_quote)
  next
    case nq: False
    show ?thesis
    proof (cases q)
      case True
      have "tok_state (slice val ts i @ [val ! i]) = Some q"
        using st True nq by (simp add: tok_state_snoc)
      with Suc.prems(2) i have "fold_inv val c0 P (Suc i) q ts col w"
        by (rule fold_inv_char)
      from Suc.IH [OF k this] show ?thesis
        using i True nq ncr nlf by (simp add: fold_loop_in_string)
    next
      case False
      show ?thesis
      proof (cases "is_wsp (val ! i)")
        case True
        from Suc.prems(2) False have inv: "fold_inv val c0 P i False ts col w" by simp
        show ?thesis
        proof (cases "col + length (slice val ts i) > 78 \<and> ts \<noteq> 0")
          case w: True
          then have "ts \<noteq> 0" by simp
          with inv i True have "fold_inv val c0 P (Suc i) False i (length (slice val ts i))
              (w @ CRLF @ slice val ts i)"
            by (rule fold_inv_wsp_wrap)
          from Suc.IH [OF k this] show ?thesis
            using i True False w by (simp add: fold_loop_wsp_wrap)
        next
          case nw: False
          then have fit: "ts = 0 \<or> col + length (slice val ts i) \<le> 78" by auto
          with inv i True have "fold_inv val c0 P (Suc i) False i (col + length (slice val ts i))
              (w @ slice val ts i)"
            by (rule fold_inv_wsp_keep)
          from Suc.IH [OF k this] show ?thesis
            using i True False fit by (simp add: fold_loop_wsp_keep)
        qed
      next
        case nw: False
        from ts nw have nws: "\<not> (is_wsp (val ! i) \<and> slice val ts i \<noteq> [])" by simp
        have "tok_state (slice val ts i @ [val ! i]) = Some q"
          using st False nq nws by (simp add: tok_state_snoc)
        with Suc.prems(2) i have "fold_inv val c0 P (Suc i) q ts col w"
          by (rule fold_inv_char)
        from Suc.IH [OF k this] show ?thesis
          using i False nq nw ncr nlf by (simp add: fold_loop_other)
      qed
    qed
  qed
qed


lemma fold_inv_start: "2 \<le> c0 \<Longrightarrow> fold_inv val c0 P 0 False 0 c0 P"
  unfolding fold_inv_def
  by (intro conjI exI [of _ "[]"])
     (simp_all add: slice_self tok_state_def terminated_def lines_ok_def line_ok_def one_word_def
        balanced_def)

lemma lines_ok_pad:
  assumes "lines_ok c0 earlier cur" "earlier \<noteq> []" "length cur \<le> 1" "one_word tok"
  shows "lines_ok c0 earlier (cur @ tok)"
proof -
  from assms(2) obtain d ds where d: "earlier = d # ds" by (cases earlier) auto
  with assms(1) have c: "cont_ok cur" by (simp add: lines_ok_def)
  with assms(3) obtain c where cur: "cur = [c]" and w: "is_wsp c"
    by (cases cur) (auto simp: cont_ok_def)
  from w assms(4) have "cont_ok (cur @ tok)"
    by (simp add: cur cont_ok_def line_ok_def one_word_wsp_Cons)
  with assms(1) show ?thesis by (simp add: d lines_ok_def)
qed

lemma lines_ok_folded:
  assumes "lines_ok c0 earlier cur" "concat earlier @ cur = val" "list_all balanced earlier"
  shows "folded val c0 (earlier @ [cur])"
  using assms by (cases earlier) (auto simp: lines_ok_def folded_def cont_ok_def)

lemma drop_slice: "drop ts val = slice val ts (length val)"
  by (simp add: slice_def)

lemma fold_finish:
  assumes inv: "fold_inv val c0 P (length val) q ts col w"
  shows "\<exists>ls.
     (let wrap = (col + length (drop ts val) > 78 \<and> ts \<noteq> 0 \<and> col > 1);
          last = (ts < length val);
          w1 = (if last \<and> wrap then w @ CRLF else w);
          col1 = (if last \<and> wrap then 0 else col);
          w2 = (if last then w1 @ drop ts val else w1);
          col2 = (if last then col1 + length (drop ts val) else col1)
      in if col2 \<noteq> 0 then (w2 @ CRLF, None) else (w2, None))
     = (P @ terminated ls, None :: error option) \<and> folded val c0 ls"
proof -
  let ?tok = "drop ts val"
  from inv have ts: "ts \<le> length val" and c0: "2 \<le> c0"
    and st: "tok_state (slice val ts (length val)) = Some q"
    and tsw: "ts \<noteq> 0 \<longrightarrow> ts < length val \<and> is_wsp (val ! ts)"
    by (simp_all add: fold_inv_def)
  from inv obtain earlier cur where w: "w = P @ terminated earlier @ cur"
    and cc: "concat earlier @ cur = take ts val"
    and col: "col = (if earlier = [] then c0 else 0) + length cur"
    and ok: "lines_ok c0 earlier cur"
    and be: "list_all balanced earlier" and bc: "balanced cur"
    unfolding fold_inv_def by blast
  from st have ow: "one_word ?tok" by (simp add: drop_slice tok_state_one_word)
  show ?thesis
  proof (cases "ts < length val")
    case False
    with ts tsw have z: "ts = 0" "val = []" by auto
    with cc have "concat earlier @ cur = []" by simp
    with ok have e: "earlier = [] \<and> cur = []" by (rule lines_ok_empty)
    with col c0 have "col \<noteq> 0" by simp
    moreover have "folded val c0 [[]]"
      by (simp add: folded_def z line_ok_def one_word_def)
    moreover have "w @ CRLF = P @ terminated [[]]"
      by (simp add: w e terminated_def)
    ultimately show ?thesis
      using False by (intro exI [of _ "[[]]"]) (simp add: Let_def)
  next
    case True
    then have ne: "?tok \<noteq> []" by simp
    show ?thesis
    proof (cases "col + length ?tok > 78 \<and> ts \<noteq> 0 \<and> col > 1")
      case wrap: True
      with tsw True have "hd ?tok = val ! ts" "is_wsp (val ! ts)"
        by (simp_all add: hd_drop_conv_nth)
      with ne ow have ct: "cont_ok ?tok" by (simp add: cont_ok_def line_ok_def)
      from wrap True have "take ts val \<noteq> []" by auto
      with cc have "concat earlier @ cur \<noteq> []" by simp
      with ok ct have "lines_ok c0 (earlier @ [cur]) ?tok" by (rule lines_ok_wrap)
      moreover have "concat (earlier @ [cur]) @ ?tok = val"
        using cc by simp
      moreover have "list_all balanced (earlier @ [cur])"
        using be bc by simp
      ultimately have f: "folded val c0 ((earlier @ [cur]) @ [?tok])"
        by (rule lines_ok_folded)
      have "w @ CRLF @ ?tok @ CRLF = P @ terminated ((earlier @ [cur]) @ [?tok])"
        by (simp add: w terminated_def)
      with f show ?thesis
        using True wrap ne by (intro exI [of _ "(earlier @ [cur]) @ [?tok]"]) (auto simp: Let_def)
    next
      case keep: False
      have "lines_ok c0 earlier (cur @ ?tok)"
      proof (cases "ts = 0")
        case True
        with cc have "concat earlier @ cur = []" by simp
        with ok have "earlier = [] \<and> cur = []" by (rule lines_ok_empty)
        with ow show ?thesis by (simp add: lines_ok_first)
      next
        case nz: False
        show ?thesis
        proof (cases "col + length ?tok \<le> 78")
          case True
          with ok col show ?thesis by (simp add: lines_ok_append)
        next
          case False
          with keep nz have c1: "col \<le> 1" by simp
          with col c0 have "earlier \<noteq> []" "length cur \<le> 1"
            by (auto split: if_splits)
          with ok show ?thesis using ow by (simp add: lines_ok_pad)
        qed
      qed
      moreover have "concat earlier @ cur @ ?tok = val"
        by (metis append.assoc append_take_drop_id cc)
      ultimately have f: "folded val c0 (earlier @ [cur @ ?tok])"
        using be by (rule lines_ok_folded)
      have "w @ ?tok @ CRLF = P @ terminated (earlier @ [cur @ ?tok])"
        by (simp add: w terminated_def)
      with f show ?thesis
        using True keep ne by (intro exI [of _ "earlier @ [cur @ ?tok]"]) (auto simp: Let_def)
    qed
  qed
qed

lemma writeHeader_folded:
  assumes p: "prepareValue x headerType (TrimSpace value) opts = Inr val"
    and cr: "CR \<notin> set val" and lf: "LF \<notin> set val"
  shows "\<exists>ls. writeHeader x w headerType key value opts
            = (w @ key @ '': '' @ terminated ls, None) \<and>
          folded val (length key + 2) ls"
proof (cases "length val + (length key + 2) < 78")
  case True
  then have "folded val (length key + 2) [val]"
    by (simp add: folded_def line_ok_def)
  moreover have "writeHeader x w headerType key value opts
      = (w @ key @ '': '' @ terminated [val], None)"
    using True by (simp add: writeHeader_def p Let_def terminated_def)
  ultimately show ?thesis by blast
next
  case False
  let ?P = "(w @ key) @ '': ''"
  have "fold_inv val (length key + 2) ?P 0 False 0 (length key + 2) ?P"
    by (rule fold_inv_start) simp
  with fold_loop_inv [OF cr lf refl]
  obtain q' ts' col' w' where
    l: "fold_loop val 0 False 0 (length key + 2) ?P = (None, ts', col', w')"
    and inv: "fold_inv val (length key + 2) ?P (length val) q' ts' col' w'"
    by blast
  from fold_finish [OF inv] obtain ls where
    t: "(let wrap = (col' + length (drop ts' val) > 78 \<and> ts' \<noteq> 0 \<and> col' > 1);
          last = (ts' < length val);
          w1 = (if last \<and> wrap then w' @ CRLF else w');
          col1 = (if last \<and> wrap then 0 else col');
          w2 = (if last then w1 @ drop ts' val else w1);
          col2 = (if last then col1 + length (drop ts' val) else col1)
      in if col2 \<noteq> 0 then (w2 @ CRLF, None) else (w2, None))
     = (?P @ terminated ls, None :: error option)"
    and f: "folded val (length key + 2) ls"
    by blast
  have "writeHeader x w headerType key value opts = (?P @ terminated ls, None)"
    unfolding writeHeader_def Let_def p
    by (simp only: sum.case False if_False l prod.case option.case t [unfolded Let_def])
  with f show ?thesis by auto
qed

lemma lines_crlf_line:
  "CR \<notin> set acc \<Longrightarrow> CR \<notin> set l \<Longrightarrow>
   lines_crlf acc (l @ CRLF @ rest) = (acc @ l) # lines_crlf [] rest"
proof (induction l arbitrary: acc)
  case Nil
  then show ?case by (simp add: CRLF_def)
next
  case (Cons a l)
  from Cons.prems have "a \<noteq> CR" by auto
  moreover from Cons.prems have "acc = [] \<or> last acc \<noteq> CR" by (metis last_in_set)
  moreover from Cons.prems have "lines_crlf (acc @ [a]) (l @ CRLF @ rest) = ((acc @ [a]) @ l) # lines_crlf [] rest"
    by (intro Cons.IH) auto
  ultimately show ?case by auto
qed

lemma lines_crlf_terminated:
  "\<forall>l \<in> set ls. CR \<notin> set l \<Longrightarrow> lines_crlf [] (terminated ls) = ls"
proof (induction ls)
  case Nil
  show ?case by (simp add: terminated_def)
next
  case (Cons l ls)
  then have "lines_crlf [] (l @ CRLF @ terminated ls) = ([] @ l) # lines_crlf [] (terminated ls)"
    by (intro lines_crlf_line) auto
  with Cons show ?case by (simp add: terminated_def)
qed

text \<open>
  Claim C1, as amended. For every key and every value that \<open>writeHeader\<close> accepts and
  that, prepared, has no CR and no LF, \<open>writeHeader\<close> succeeds and writes \<open>Key: \<close>
  followed by the bytes of the prepared value, in order and with nothing added or left
  out, cut into lines that each end with CRLF. The value is cut only just before a
  white space character that is outside double quotes, and never before its first
  byte: no token is split, whatever its length, and the first token always stays on the
  line of \<open>Key: \<close>. Every line has at most 78 characters before its CRLF, the first
  line with its \<open>Key: \<close>, except a line that holds a single token: after the white
  space at its start, or after \<open>Key: \<close> on the first line, it has no white space
  outside double quotes. For a key with no CR, the lines of the whole header are these
  lines, the first with \<open>Key: \<close> before it.
\<close>

theorem writeHeader_line_lengths:
  assumes p: "prepareValue x headerType (TrimSpace value) opts = Inr val"
    and cr: "CR \<notin> set val" and lf: "LF \<notin> set val"
  shows "let out = fst (writeHeader x w headerType key value opts);
             ls = value_lines w key out
         in snd (writeHeader x w headerType key value opts) = None \<and>
            out = w @ key @ '': '' @ terminated ls \<and>
            folded val (length key + 2) ls \<and>
            (CR \<in> set key \<or>
             emitted_lines (drop (length w) out) = (key @ '': '' @ hd ls) # tl ls)"
proof -
  from writeHeader_folded [OF p cr lf] obtain ls where
    e: "writeHeader x w headerType key value opts = (w @ key @ '': '' @ terminated ls, None)"
    and f: "folded val (length key + 2) ls"
    by blast
  from f obtain d ds where ls: "ls = d # ds" and c: "concat ls = val"
    by (cases ls) (auto simp: folded_def)
  from c cr have n: "\<forall>l \<in> set ls. CR \<notin> set l" by auto
  then have "lines_crlf [] (terminated ls) = ls"
    by (rule lines_crlf_terminated)
  then have v: "value_lines w key (w @ key @ '': '' @ terminated ls) = ls"
    by (simp add: value_lines_def emitted_lines_def)
  have "emitted_lines (key @ '': '' @ terminated ls) = (key @ '': '' @ d) # ds"
    if ck: "CR \<notin> set key"
  proof -
    have "key @ '': '' @ terminated ls = (key @ '': '' @ d) @ CRLF @ terminated ds"
      by (simp add: ls terminated_def)
    moreover have "lines_crlf [] ((key @ '': '' @ d) @ CRLF @ terminated ds)
        = ([] @ key @ '': '' @ d) # lines_crlf [] (terminated ds)"
      using ck n ls by (intro lines_crlf_line) auto
    moreover have "lines_crlf [] (terminated ds) = ds"
      using n ls by (intro lines_crlf_terminated) auto
    ultimately show ?thesis
      by (simp add: emitted_lines_def)
  qed
  with e f v show ?thesis
    by (auto simp: Let_def ls)
qed

theorem writeHeader_line_lengths_witness:
  "\<forall>x opts.
     snd (writeHeader x [] HeaderTypeUnstructured ''Subject''
        ''abcdefghi 123456798 abcdefghi 123456798 abcdefghi 123456798 abcdefghi 123456798 abcdefghi 123456798 '' opts) = None
     \<and> fst (writeHeader x [] HeaderTypeUnstructured ''Subject''
        ''abcdefghi 123456798 abcdefghi 123456798 abcdefghi 123456798 abcdefghi 123456798 abcdefghi 123456798 '' opts)
       = ''Subject: '' @ terminated (value_lines [] ''Subject''
          (fst (writeHeader x [] HeaderTypeUnstructured ''Subject''
        ''abcdefghi 123456798 abcdefghi 123456798 abcdefghi 123456798 abcdefghi 123456798 abcdefghi 123456798 '' opts)))
     \<and> folded ''abcdefghi 123456798 abcdefghi 123456798 abcdefghi 123456798 abcdefghi 123456798 abcdefghi 123456798''
        9
        (value_lines [] ''Subject''
          (fst (writeHeader x [] HeaderTypeUnstructured ''Subject''
        ''abcdefghi 123456798 abcdefghi 123456798 abcdefghi 123456798 abcdefghi 123456798 abcdefghi 123456798 '' opts)))
     \<and> value_lines [] ''Subject''
          (fst (writeHeader x [] HeaderTypeUnstructured ''Subject''
        ''abcdefghi 123456798 abcdefghi 123456798 abcdefghi 123456798 abcdefghi 123456798 abcdefghi 123456798 '' opts))
       = [''abcdefghi 123456798 abcdefghi 123456798 abcdefghi 123456798 abcdefghi'',
          '' 123456798 abcdefghi 123456798'']"
proof (intro allI)
  fix x opts
  let ?v = "''abcdefghi 123456798 abcdefghi 123456798 abcdefghi 123456798 abcdefghi 123456798 abcdefghi 123456798 ''"
  let ?t = "''abcdefghi 123456798 abcdefghi 123456798 abcdefghi 123456798 abcdefghi 123456798 abcdefghi 123456798''"
  let ?ls = "value_lines [] ''Subject'' (fst (writeHeader x [] HeaderTypeUnstructured ''Subject'' ?v opts))"
  have p: "prepareValue x HeaderTypeUnstructured (TrimSpace ?v) opts = Inr ?t"
    by code_simp
  have cr: "CR \<notin> set ?t" and lf: "LF \<notin> set ?t"
    by simp_all
  have l: "?ls = [''abcdefghi 123456798 abcdefghi 123456798 abcdefghi 123456798 abcdefghi'',
          '' 123456798 abcdefghi 123456798'']"
    by code_simp
  have k: "[] @ ''Subject'' @ '': '' @ z = ''Subject: '' @ z" for z :: string
    by simp
  have n: "length ''Subject'' + 2 = 9"
    by simp
  from writeHeader_line_lengths [OF p cr lf, of "[]" "''Subject''", unfolded Let_def k n]
  have a: "snd (writeHeader x [] HeaderTypeUnstructured ''Subject'' ?v opts) = None"
    and b: "fst (writeHeader x [] HeaderTypeUnstructured ''Subject'' ?v opts)
         = ''Subject: '' @ terminated ?ls"
    and c: "folded ?t 9 ?ls"
    by blast+
  show "snd (writeHeader x [] HeaderTypeUnstructured ''Subject'' ?v opts) = None
     \<and> fst (writeHeader x [] HeaderTypeUnstructured ''Subject'' ?v opts)
         = ''Subject: '' @ terminated ?ls
     \<and> folded ?t 9 ?ls
     \<and> ?ls = [''abcdefghi 123456798 abcdefghi 123456798 abcdefghi 123456798 abcdefghi'',
          '' 123456798 abcdefghi 123456798'']"
    by (intro conjI a b c l)
qed

text \<open>
  Claim C1 as stated fails in three ways, each on an unstructured \<open>Subject\<close> header.
  The first token of a value is never moved to a new line: with a first token of 70
  characters the first line has 79 characters, and no token on it is longer than 78.
  The white space that starts a continuation line counts in its length: a word of
  exactly 78 characters, which is not longer than 78, gives a continuation line of 79
  characters. White space inside double quotes is no place to wrap: a quoted string of
  thirty short words is written on one line of 123 characters, the last of the header,
  and no whitespace-delimited token on it is longer than 4 characters.
\<close>

theorem writeHeader_line_lengths_counterexample:
  "\<forall>x opts.
     map length (emitted_lines (fst (writeHeader x [] HeaderTypeUnstructured ''Subject''
        (replicate 70 CHR ''a'' @ '' b'') opts))) = [79, 2]
     \<and> \<not> list_all claimed_line_ok
         (emitted_lines (fst (writeHeader x [] HeaderTypeUnstructured ''Subject''
            (replicate 70 CHR ''a'' @ '' b'') opts)))
     \<and> map length (emitted_lines (fst (writeHeader x [] HeaderTypeUnstructured ''Subject''
        (''aaa '' @ replicate 78 CHR ''b'') opts))) = [12, 79]
     \<and> \<not> list_all claimed_line_ok
         (emitted_lines (fst (writeHeader x [] HeaderTypeUnstructured ''Subject''
            (''aaa '' @ replicate 78 CHR ''b'') opts)))
     \<and> map length (emitted_lines (fst (writeHeader x [] HeaderTypeUnstructured ''Subject''
        (''x '' @ [CHR 0x22] @ concat (replicate 30 ''abc '') @ [CHR 0x22]) opts))) = [10, 123]
     \<and> \<not> list_all claimed_line_ok
         (emitted_lines (fst (writeHeader x [] HeaderTypeUnstructured ''Subject''
            (''x '' @ [CHR 0x22] @ concat (replicate 30 ''abc '') @ [CHR 0x22]) opts)))
     \<and> list_all (\<lambda>t. length t \<le> 4)
         (tokens []
           (last (emitted_lines (fst (writeHeader x [] HeaderTypeUnstructured ''Subject''
            (''x '' @ [CHR 0x22] @ concat (replicate 30 ''abc '') @ [CHR 0x22]) opts)))))"
  by (intro allI conjI; code_simp)

end
